theory Spec2Isabelle
  imports Main "HOL-Library.AList" "HOL-Library.Sublist"
begin

section \<open>Paths and container names\<close>

text \<open>
  File contents and names are strings. A path is the list of its \<open>pathlib\<close> parts: a
  relative path is the list of its component names, an absolute one starts with the root
  part \<open>''/''\<close> (or \<open>''//''\<close>, which POSIX keeps apart). The host is POSIX, so
  \<open>os.sep\<close> is the slash.
\<close>

type_synonym bytes = string
type_synonym path = "string list"

text \<open>\<open>rel_path.replace("/", "__")\<close> of \<open>create_patch\<close>.\<close>

fun patch_name_of :: "string \<Rightarrow> string" where
  "patch_name_of [] = []"
| "patch_name_of (c # s) =
     (if c = CHR ''/'' then CHR ''_'' # CHR ''_'' # patch_name_of s else c # patch_name_of s)"

text \<open>
  \<open>rel_path_safe.replace("__", os.sep)\<close> of \<open>apply_patch\<close>: Python replaces the
  leftmost occurrence first and goes on behind it.
\<close>

fun rel_path_of :: "string \<Rightarrow> string" where
  "rel_path_of (a # b # s) =
     (if a = CHR ''_'' \<and> b = CHR ''_'' then CHR ''/'' # rel_path_of s
      else a # rel_path_of (b # s))"
| "rel_path_of s = s"

text \<open>
  \<open>os.path.splitext\<close> on a file name (a name holds no slash): the extension starts at
  the last dot, unless only dots come before it.
\<close>

definition splitext :: "string \<Rightarrow> string \<times> string" where
  "splitext p =
     (let dotIndex = length p - Suc (length (takeWhile (\<lambda>c. c \<noteq> CHR ''.'') (rev p)))
      in if CHR ''.'' \<in> set p \<and> list_ex (\<lambda>c. c \<noteq> CHR ''.'') (take dotIndex p)
         then (take dotIndex p, drop dotIndex p)
         else (p, []))"

text \<open>\<open>str.split("/")\<close>.\<close>

fun split_sep :: "string \<Rightarrow> string list" where
  "split_sep [] = [[]]"
| "split_sep (c # s) =
     (if c = CHR ''/'' then [] # split_sep s
      else (case split_sep s of w # ws \<Rightarrow> (c # w) # ws | [] \<Rightarrow> [[c]]))"

text \<open>
  The parts \<open>pathlib\<close> parses from a string: the root, then the components between
  slashes without the empty ones and without \<open>''.''\<close>. A component \<open>''..''\<close> is kept.
\<close>

definition path_parts :: "string \<Rightarrow> path" where
  "path_parts s =
     (if take 2 s = ''//'' \<and> take 3 s \<noteq> ''///'' then [''//'']
      else if take 1 s = ''/'' then [''/''] else [])
     @ filter (\<lambda>x. x \<noteq> [] \<and> x \<noteq> ''.'') (split_sep s)"

definition is_root :: "string \<Rightarrow> bool" where
  "is_root x = (x = ''/'' \<or> x = ''//'')"

definition is_absolute :: "path \<Rightarrow> bool" where
  "is_absolute p = (case p of [] \<Rightarrow> False | x # _ \<Rightarrow> is_root x)"

text \<open>\<open>Path(d) / s\<close>: an absolute right operand replaces the left one.\<close>

definition joinpath :: "path \<Rightarrow> string \<Rightarrow> path" where
  "joinpath d s = (let q = path_parts s in if is_absolute q then q else d @ q)"

text \<open>\<open>as_posix()\<close> of a relative path.\<close>

fun as_posix :: "path \<Rightarrow> string" where
  "as_posix [] = ''.''"
| "as_posix [x] = x"
| "as_posix (x # xs) = x @ CHR ''/'' # as_posix xs"

text \<open>\<open>Path.parent\<close>: the root and the empty path are their own parents.\<close>

definition parent :: "path \<Rightarrow> path" where
  "parent p = (if p = [] \<or> (length p = 1 \<and> is_root (hd p)) then p else butlast p)"

text \<open>
  \<open>str(target_file) + ".tmp"\<close>, read back as a path: the suffix goes to the last
  component; the empty path prints as a dot and the root as itself.
\<close>

definition tmp_new :: "path \<Rightarrow> path" where
  "tmp_new p =
     (if p = [] then [''..tmp'']
      else if length p = 1 \<and> is_root (hd p) then p @ [''.tmp'']
      else butlast p @ [last p @ ''.tmp''])"

section \<open>The file system\<close>

text \<open>
  A file system maps a path to a regular file with its content or to a directory. There are
  no symbolic links, and a component \<open>''..''\<close> is an ordinary name: the statements below
  about what a run does to the tree are meant for names that hold none. The empty path (the
  working directory) and the roots always exist as directories.
\<close>

datatype node = File bytes | Dir

type_synonym fs = "path \<rightharpoonup> node"

definition node_at :: "fs \<Rightarrow> path \<Rightarrow> node option" where
  "node_at f p = (if p = [] \<or> (length p = 1 \<and> is_root (hd p)) then Some Dir else f p)"

text \<open>\<open>Path.exists()\<close>.\<close>

definition path_exists :: "fs \<Rightarrow> path \<Rightarrow> bool" where
  "path_exists f p = (node_at f p \<noteq> None)"

definition is_file :: "fs \<Rightarrow> path \<Rightarrow> bool" where
  "is_file f p = (case node_at f p of Some (File c) \<Rightarrow> True | _ \<Rightarrow> False)"

datatype error =
    InterruptedError
  | ManifestNotFound
  | OriginalNotFound path
  | ValidationFailed "string list"
  | PatchError path
  | IsADirectoryError path
  | NotADirectoryError path
  | FileExistsError path
  | SameFileError path
  | ArchiveError
  | JSONDecodeError
  | WriteError

text \<open>The non-empty prefixes of a path, shortest first: the directories \<open>mkdir\<close> visits.\<close>

definition ancestors :: "path \<Rightarrow> path list" where
  "ancestors d = map (\<lambda>n. take n d) [1 ..< Suc (length d)]"

text \<open>
  \<open>d.mkdir(parents=True, exist_ok=True)\<close>: raises when \<open>d\<close> is a regular file
  (\<open>FileExistsError\<close>) or a directory above it is one (\<open>NotADirectoryError\<close>), and
  nothing is created then; creates every missing directory otherwise.
\<close>

definition mkdir :: "fs \<Rightarrow> path \<Rightarrow> error + fs" where
  "mkdir f d =
     (case find (is_file f) (ancestors d) of
        Some q \<Rightarrow> Inl (if q = d then FileExistsError q else NotADirectoryError q)
      | None \<Rightarrow> Inr (\<lambda>q. if q \<in> set (ancestors d) \<and> node_at f q = None then Some Dir else f q))"

section \<open>External capabilities\<close>

text \<open>
  The digest and the binary delta codec are libraries (\<open>hashlib\<close>, \<open>detools\<close>); the
  operations take them as a parameter. A failed reconstruction has written some bytes to
  its output before it raised.
\<close>

datatype patch_result = Rebuilt bytes | Broken bytes

record caps =
  sha256sum :: "bytes \<Rightarrow> string"
  detools_create_patch :: "bytes \<Rightarrow> bytes \<Rightarrow> bytes"
  detools_apply_patch :: "bytes \<Rightarrow> bytes \<Rightarrow> patch_result"

section \<open>apply\_patch\<close>

text \<open>
  The state of a run: the file system, and the files under \<open>patch_tmp/rollback\<close> keyed
  by their path below that directory. The scratch directory lies outside every path a
  package addresses.
\<close>

record run =
  tree :: fs
  rollback_dir :: "(path \<times> bytes) list"

text \<open>Whether a path below \<open>rollback_dir\<close> is a directory there.\<close>

definition backup_is_dir :: "(path \<times> bytes) list \<Rightarrow> path \<Rightarrow> bool" where
  "backup_is_dir rb p = (p = [] \<or> list_ex (\<lambda>k. strict_prefix p k) (map fst rb))"

text \<open>
  Lines 203 to 206, for a target that exists: \<open>backup_path.parent.mkdir\<close> and
  \<open>shutil.copy2(target_file, backup_path)\<close>. An absolute \<open>rel_path\<close> makes
  \<open>backup_path\<close> the target itself; \<open>copy2\<close> copies into a destination that is a
  directory.
\<close>

definition backup :: "(path \<times> bytes) list \<Rightarrow> string \<Rightarrow> path \<Rightarrow> node
    \<Rightarrow> error + (path \<times> bytes) list" where
  "backup rb rel_path target_file n =
     (let backup_path = path_parts rel_path in
      if is_absolute backup_path then
        (case n of Dir \<Rightarrow> Inl (IsADirectoryError target_file)
                 | File c \<Rightarrow> Inl (SameFileError target_file))
      else
        (case find (\<lambda>q. q \<in> set (map fst rb)) (ancestors (parent backup_path)) of
           Some q \<Rightarrow>
             Inl (if q = parent backup_path then FileExistsError q else NotADirectoryError q)
         | None \<Rightarrow>
            (case n of
               Dir \<Rightarrow> Inl (IsADirectoryError target_file)
             | File c \<Rightarrow>
                 if backup_is_dir rb backup_path then
                   (let dst = backup_path @ [last target_file] in
                    if backup_is_dir rb dst then Inl (IsADirectoryError dst)
                    else Inr (AList.update dst c rb))
                 else Inr (AList.update backup_path c rb))))"

text \<open>Lines 208 to 224: the three kinds of entry; any other extension does nothing.\<close>

definition dispatch :: "caps \<Rightarrow> string \<Rightarrow> string \<Rightarrow> path \<Rightarrow> bytes \<Rightarrow> fs \<Rightarrow> fs \<times> error option" where
  "dispatch X ext patch_name target_file patch_file f =
     (if ext = ''.patch'' then
        (case node_at f target_file of
           None \<Rightarrow> (f, Some (OriginalNotFound target_file))
         | Some Dir \<Rightarrow> (f, Some (IsADirectoryError target_file))
         | Some (File old) \<Rightarrow>
             (case node_at f (tmp_new target_file) of
                Some Dir \<Rightarrow> (f, Some (IsADirectoryError (tmp_new target_file)))
              | _ \<Rightarrow>
                (case detools_apply_patch X old patch_file of
                   Broken w \<Rightarrow> (f(tmp_new target_file \<mapsto> File w), Some (PatchError target_file))
                 | Rebuilt new \<Rightarrow>
                     ((f(tmp_new target_file := None))(target_file \<mapsto> File new), None))))
      else if ext = ''.full'' then
        (case node_at f target_file of
           Some Dir \<Rightarrow>
             (case node_at f (target_file @ [patch_name]) of
                Some Dir \<Rightarrow> (f, Some (IsADirectoryError (target_file @ [patch_name])))
              | _ \<Rightarrow> (f(target_file @ [patch_name] \<mapsto> File patch_file), None))
         | _ \<Rightarrow> (f(target_file \<mapsto> File patch_file), None))
      else if ext = ''.delete'' then
        (case node_at f target_file of
           None \<Rightarrow> (f, None)
         | Some Dir \<Rightarrow> (f, Some (IsADirectoryError target_file))
         | Some (File c) \<Rightarrow> (f(target_file := None), None))
      else (f, None))"

text \<open>The body of the loop over the patch files, lines 193 to 224.\<close>

definition apply_entry :: "caps \<Rightarrow> path \<Rightarrow> run \<Rightarrow> string \<times> bytes \<Rightarrow> run \<times> error option" where
  "apply_entry X game_dir s patch_file =
     (let patch_name = fst patch_file;
          (rel_path_safe, ext) = splitext patch_name;
          rel_path = rel_path_of rel_path_safe;
          target_file = joinpath game_dir rel_path
      in case mkdir (tree s) (parent target_file) of
           Inl e \<Rightarrow> (s, Some e)
         | Inr f1 \<Rightarrow>
            (case (case node_at f1 target_file of
                     None \<Rightarrow> Inr (rollback_dir s)
                   | Some n \<Rightarrow> backup (rollback_dir s) rel_path target_file n) of
               Inl e \<Rightarrow> (s\<lparr>tree := f1\<rparr>, Some e)
             | Inr rb \<Rightarrow>
                (case dispatch X ext patch_name target_file (snd patch_file) f1 of
                   (f2, r) \<Rightarrow> (\<lparr>tree = f2, rollback_dir = rb\<rparr>, r))))"

text \<open>
  The loop, lines 190 to 224. \<open>cancelled i\<close> tells whether \<open>_check_cancel\<close> finds the
  event set at the start of iteration \<open>i\<close>.
\<close>

fun apply_entries :: "caps \<Rightarrow> (nat \<Rightarrow> bool) \<Rightarrow> path \<Rightarrow> nat \<Rightarrow> (string \<times> bytes) list \<Rightarrow> run
    \<Rightarrow> run \<times> error option" where
  "apply_entries X cancelled game_dir i [] s = (s, None)"
| "apply_entries X cancelled game_dir i (patch_file # rest) s =
     (if cancelled i then (s, Some InterruptedError)
      else (case apply_entry X game_dir s patch_file of
              (s', Some e) \<Rightarrow> (s', Some e)
            | (s', None) \<Rightarrow> apply_entries X cancelled game_dir (Suc i) rest s'))"

text \<open>The manifest: path string to digest and size, in the order of the JSON object.\<close>

type_synonym manifest = "(string \<times> string \<times> nat) list"

text \<open>Lines 227 to 233. Hashing a path that is a directory raises.\<close>

fun validate :: "caps \<Rightarrow> path \<Rightarrow> fs \<Rightarrow> manifest \<Rightarrow> error + string list" where
  "validate X game_dir f [] = Inr []"
| "validate X game_dir f ((rel_path, info) # m) =
     (case node_at f (joinpath game_dir rel_path) of
        None \<Rightarrow> map_sum id (\<lambda>errors. (''Missing file: '' @ rel_path) # errors) (validate X game_dir f m)
      | Some Dir \<Rightarrow> Inl (IsADirectoryError (joinpath game_dir rel_path))
      | Some (File c) \<Rightarrow>
          if sha256sum X c \<noteq> fst info
          then map_sum id (\<lambda>errors. (''Hash mismatch: '' @ rel_path) # errors) (validate X game_dir f m)
          else validate X game_dir f m)"

text \<open>
  Lines 244 to 250, the rollback: every file under \<open>rollback_dir\<close> is copied back. An
  exception in here ends the rollback where it stands.
\<close>

definition restore_file :: "path \<Rightarrow> path \<Rightarrow> bytes \<Rightarrow> fs \<Rightarrow> error + fs" where
  "restore_file game_dir rel_path c f =
     (let target_file = game_dir @ rel_path in
      case mkdir f (parent target_file) of
        Inl e \<Rightarrow> Inl e
      | Inr f1 \<Rightarrow>
         (case node_at f1 target_file of
            Some Dir \<Rightarrow>
              (let dst = target_file @ [last rel_path] in
               case node_at f1 dst of
                 Some Dir \<Rightarrow> Inl (IsADirectoryError dst)
               | _ \<Rightarrow> Inr (f1(dst \<mapsto> File c)))
          | _ \<Rightarrow> Inr (f1(target_file \<mapsto> File c))))"

fun restore :: "path \<Rightarrow> (path \<times> bytes) list \<Rightarrow> fs \<Rightarrow> fs \<times> error option" where
  "restore game_dir [] f = (f, None)"
| "restore game_dir ((rel_path, c) # rb) f =
     (case restore_file game_dir rel_path c f of
        Inl e \<Rightarrow> (f, Some e)
      | Inr f' \<Rightarrow> restore game_dir rb f')"

text \<open>
  What the extraction of lines 169 to 187 leaves in \<open>patch_tmp\<close>: nothing when the
  archive cannot be read within the memory limit or cannot be unpacked, else the manifest
  file and the patch files by name, in the order \<open>rglob\<close> lists them. The archive is
  flat, as \<open>create_patch\<close> writes it.
\<close>

datatype manifest_file = NoManifest | BadManifest | Manifest manifest

datatype archive = Unreadable | Archive manifest_file "(string \<times> bytes) list"

text \<open>The \<open>try\<close> block of \<open>apply_patch\<close>, lines 169 to 239.\<close>

definition apply_try :: "caps \<Rightarrow> (nat \<Rightarrow> bool) \<Rightarrow> path \<Rightarrow> archive \<Rightarrow> fs \<Rightarrow> run \<times> error option" where
  "apply_try X cancelled game_dir a f =
     (let s0 = \<lparr>tree = f, rollback_dir = []\<rparr> in
      case a of
        Unreadable \<Rightarrow> (s0, Some ArchiveError)
      | Archive NoManifest files \<Rightarrow> (s0, Some ManifestNotFound)
      | Archive BadManifest files \<Rightarrow> (s0, Some JSONDecodeError)
      | Archive (Manifest m) files \<Rightarrow>
          (let patch_files = filter (\<lambda>p. fst p \<noteq> ''manifest.json'') files in
           case apply_entries X cancelled game_dir 0 patch_files s0 of
             (s, Some e) \<Rightarrow> (s, Some e)
           | (s, None) \<Rightarrow>
               (case validate X game_dir (tree s) m of
                  Inl e \<Rightarrow> (s, Some e)
                | Inr errors \<Rightarrow>
                    if errors \<noteq> [] then (s, Some (ValidationFailed errors)) else (s, None))))"

text \<open>
  \<open>apply_patch\<close>: every exception of the \<open>try\<close> block runs the rollback and is raised
  again; an exception of the rollback itself takes its place.
\<close>

definition apply_patch :: "caps \<Rightarrow> (nat \<Rightarrow> bool) \<Rightarrow> path \<Rightarrow> archive \<Rightarrow> fs \<Rightarrow> fs \<times> (error + unit)" where
  "apply_patch X cancelled game_dir a f =
     (case apply_try X cancelled game_dir a f of
        (s, None) \<Rightarrow> (tree s, Inr ())
      | (s, Some e) \<Rightarrow>
          (case restore game_dir (rollback_dir s) (tree s) of
             (f', None) \<Rightarrow> (f', Inl e)
           | (f', Some e') \<Rightarrow> (f', Inl e')))"

section \<open>create\_patch\<close>

text \<open>
  A directory tree as \<open>rglob\<close> walks it: the paths below the root, as parts relative to
  the root, each a regular file or a directory, in the order of the walk.
\<close>

type_synonym dir_tree = "(path \<times> node) list"

definition tree_node :: "dir_tree \<Rightarrow> path \<Rightarrow> node option" where
  "tree_node t p = (if p = [] then Some Dir else map_of t p)"

text \<open>\<open>[p for p in root.rglob("*") if p.is_file()]\<close>, each file with its content.\<close>

definition rglob_files :: "dir_tree \<Rightarrow> (path \<times> bytes) list" where
  "rglob_files t = List.map_filter (\<lambda>(p, n). case n of File c \<Rightarrow> Some (p, c) | Dir \<Rightarrow> None) t"

text \<open>What the run has collected: the manifest and the files written to \<open>patch_tmp\<close>.\<close>

record creator =
  manifest_of :: manifest
  patch_tmp :: "(string \<times> bytes) list"

text \<open>
  The body of the first loop, lines 99 to 127, for a file of the new tree.
  \<open>filecmp.cmp\<close> is false when the old path is a directory, and opening it raises.
\<close>

definition new_file_step :: "caps \<Rightarrow> dir_tree \<Rightarrow> creator \<Rightarrow> path \<times> bytes \<Rightarrow> error + creator" where
  "new_file_step X old st file =
     (let rel_path = as_posix (fst file);
          old_file = joinpath [] rel_path;
          manifest' = AList.update rel_path (sha256sum X (snd file), length (snd file)) (manifest_of st);
          patch_name = patch_name_of rel_path
      in case tree_node old old_file of
           Some (File c) \<Rightarrow>
             if c = snd file then Inr (st\<lparr>manifest_of := manifest'\<rparr>)
             else Inr \<lparr>manifest_of = manifest',
                       patch_tmp = AList.update (patch_name @ ''.patch'')
                                     (detools_create_patch X c (snd file)) (patch_tmp st)\<rparr>
         | Some Dir \<Rightarrow> Inl (IsADirectoryError old_file)
         | None \<Rightarrow>
             Inr \<lparr>manifest_of = manifest',
                  patch_tmp = AList.update (patch_name @ ''.full'') (snd file) (patch_tmp st)\<rparr>)"

fun new_files_loop :: "caps \<Rightarrow> (nat \<Rightarrow> bool) \<Rightarrow> dir_tree \<Rightarrow> nat \<Rightarrow> (path \<times> bytes) list \<Rightarrow> creator
    \<Rightarrow> error + creator" where
  "new_files_loop X cancelled old i [] st = Inr st"
| "new_files_loop X cancelled old i (file # rest) st =
     (if cancelled i then Inl InterruptedError
      else (case new_file_step X old st file of
              Inl e \<Rightarrow> Inl e
            | Inr st' \<Rightarrow> new_files_loop X cancelled old (Suc i) rest st'))"

text \<open>The body of the second loop, lines 131 to 136, for a file of the old tree.\<close>

definition old_file_step :: "dir_tree \<Rightarrow> creator \<Rightarrow> path \<times> bytes \<Rightarrow> creator" where
  "old_file_step new st file =
     (let rel_path = as_posix (fst file) in
      if tree_node new (joinpath [] rel_path) = None
      then st\<lparr>patch_tmp := AList.update (patch_name_of rel_path @ ''.delete'') ''DELETE'' (patch_tmp st)\<rparr>
      else st)"

fun old_files_loop :: "(nat \<Rightarrow> bool) \<Rightarrow> dir_tree \<Rightarrow> nat \<Rightarrow> (path \<times> bytes) list \<Rightarrow> creator
    \<Rightarrow> error + creator" where
  "old_files_loop cancelled new i [] st = Inr st"
| "old_files_loop cancelled new i (file # rest) st =
     (if cancelled i then Inl InterruptedError
      else old_files_loop cancelled new (Suc i) rest (old_file_step new st file))"

text \<open>Lines 88 to 143: both loops; what \<open>patch_tmp\<close> and \<open>manifest.json\<close> hold after them.\<close>

definition collect :: "caps \<Rightarrow> (nat \<Rightarrow> bool) \<Rightarrow> dir_tree \<Rightarrow> dir_tree \<Rightarrow> error + creator" where
  "collect X cancelled old new =
     (let all_new_files = rglob_files new;
          all_old_files = rglob_files old
      in case new_files_loop X cancelled old 0 all_new_files \<lparr>manifest_of = [], patch_tmp = []\<rparr> of
           Inl e \<Rightarrow> Inl e
         | Inr st \<Rightarrow> old_files_loop cancelled new (length all_new_files) all_old_files st)"

text \<open>
  The file at the destination path: a whole package, or the first bytes of one that a
  failed write left there.
\<close>

datatype package_file = Complete archive | Truncated nat

text \<open>
  \<open>create_patch\<close>. \<open>write_fails = Some n\<close> is a destination that takes \<open>n\<close> bytes of
  the compressed stream and then raises on the next write, \<open>None\<close> one that takes them
  all. \<open>open(patch_package, "wb")\<close> at line 147 creates or empties the file; the
  \<open>finally\<close> clause removes \<open>patch_tmp\<close> only. The package holds the patch files
  in the order they were written; the order in which \<open>apply_patch\<close> lists them after
  unpacking is another matter.
\<close>

definition create_patch :: "caps \<Rightarrow> (nat \<Rightarrow> bool) \<Rightarrow> nat option \<Rightarrow> dir_tree \<Rightarrow> dir_tree
    \<Rightarrow> package_file option \<Rightarrow> package_file option \<times> (error + unit)" where
  "create_patch X cancelled write_fails old new patch_package =
     (case collect X cancelled old new of
        Inl e \<Rightarrow> (patch_package, Inl e)
      | Inr st \<Rightarrow>
         (case write_fails of
            Some n \<Rightarrow> (Some (Truncated n), Inl WriteError)
          | None \<Rightarrow> (Some (Complete (Archive (Manifest (manifest_of st)) (patch_tmp st))), Inr ())))"

section \<open>Well-formed inputs and sample data\<close>

text \<open>A component name of a real directory entry.\<close>

definition name_ok :: "string \<Rightarrow> bool" where
  "name_ok x = (x \<noteq> [] \<and> x \<noteq> ''.'' \<and> x \<noteq> ''..'' \<and> CHR ''/'' \<notin> set x)"

text \<open>The path of a file below a root, relative to it.\<close>

definition rel_ok :: "path \<Rightarrow> bool" where
  "rel_ok p = (p \<noteq> [] \<and> list_all name_ok p)"

text \<open>A string in which no underscore is followed by an underscore or a slash.\<close>

fun no_marker :: "string \<Rightarrow> bool" where
  "no_marker (a # b # s) =
     (\<not> (a = CHR ''_'' \<and> (b = CHR ''_'' \<or> b = CHR ''/'')) \<and> no_marker (b # s))"
| "no_marker s = True"

text \<open>
  The relative paths on which the container name can be read back: no marker in the
  path, and a character other than the dot, so that \<open>splitext\<close> finds the extension.
\<close>

definition reversible :: "path \<Rightarrow> bool" where
  "reversible p =
     (rel_ok p \<and> no_marker (as_posix p) \<and> list_ex (\<lambda>c. c \<noteq> CHR ''.'') (as_posix p))"

text \<open>The cancellation event is never set; it is set before check \<open>n\<close>.\<close>

definition never :: "nat \<Rightarrow> bool" where
  "never i = False"

definition set_before :: "nat \<Rightarrow> nat \<Rightarrow> bool" where
  "set_before n i = (n \<le> i)"

text \<open>
  A small instance of the capabilities for running the operations on concrete inputs: the
  digest is the content, a delta is the new content behind the letter D, and anything
  else does not reconstruct.
\<close>

definition sample_caps :: caps where
  "sample_caps =
     \<lparr>sha256sum = (\<lambda>c. c),
      detools_create_patch = (\<lambda>old new. CHR ''D'' # new),
      detools_apply_patch =
        (\<lambda>old d. case d of [] \<Rightarrow> Broken []
                  | x # r \<Rightarrow> if x = CHR ''D'' then Rebuilt r else Broken (take 1 r))\<rparr>"

text \<open>The file system that holds a copy of a tree at \<open>game_dir\<close> and nothing else.\<close>

definition mount :: "path \<Rightarrow> dir_tree \<Rightarrow> fs" where
  "mount game_dir t =
     (\<lambda>p. if p \<in> set (ancestors game_dir) then Some Dir
          else if take (length game_dir) p = game_dir then map_of t (drop (length game_dir) p)
          else None)"

text \<open>
  A record of the manifest whose path is missing from the tree, and one whose path holds a
  file with another digest.
\<close>

definition missing :: "path \<Rightarrow> fs \<Rightarrow> string \<times> string \<times> nat \<Rightarrow> bool" where
  "missing game_dir f e = (node_at f (joinpath game_dir (fst e)) = None)"

definition mismatch :: "caps \<Rightarrow> path \<Rightarrow> fs \<Rightarrow> string \<times> string \<times> nat \<Rightarrow> bool" where
  "mismatch X game_dir f e =
     (case node_at f (joinpath game_dir (fst e)) of
        Some (File c) \<Rightarrow> sha256sum X c \<noteq> fst (snd e)
      | _ \<Rightarrow> False)"

text \<open>
  The shape of the files under \<open>rollback_dir\<close>: one file per path, and no file below
  another file.
\<close>

definition store_ok :: "(path \<times> bytes) list \<Rightarrow> bool" where
  "store_ok rb =
     (distinct (map fst rb) \<and> [] \<notin> fst ` set rb
      \<and> (\<forall>k \<in> fst ` set rb. \<forall>k' \<in> fst ` set rb. \<not> strict_prefix k k'))"

text \<open>
  A path lies inside a root when it is strictly below it and goes through no component
  \<open>''..''\<close>.
\<close>

definition inside :: "path \<Rightarrow> path \<Rightarrow> bool" where
  "inside root p = (strict_prefix root p \<and> ''..'' \<notin> set (drop (length root) p))"

text \<open>
  The name of a patch file that \<open>apply_patch\<close> reads as a relative path with at least
  one component and without a component \<open>''..''\<close>.
\<close>

definition plain_name :: "string \<Rightarrow> bool" where
  "plain_name patch_name =
     (let q = path_parts (rel_path_of (fst (splitext patch_name)))
      in q \<noteq> [] \<and> \<not> is_absolute q \<and> ''..'' \<notin> set q)"

text \<open>
  Two file systems that differ only inside a root, or in that the root or a directory above
  it was missing and has been created.
\<close>

definition only_inside :: "path \<Rightarrow> fs \<Rightarrow> fs \<Rightarrow> bool" where
  "only_inside root f f' =
     (\<forall>p. f' p = f p \<or> inside root p
          \<or> (f p = None \<and> f' p = Some Dir \<and> p \<in> set (ancestors root)))"

text \<open>The files under \<open>rollback_dir\<close> have non-empty paths without \<open>''..''\<close>.\<close>

definition keys_plain :: "(path \<times> bytes) list \<Rightarrow> bool" where
  "keys_plain rb = (\<forall>k \<in> fst ` set rb. k \<noteq> [] \<and> ''..'' \<notin> set k)"

text \<open>
  A tree as a walk of a real directory gives it: every path once, of valid component names,
  and every directory above a path in the tree as a directory.
\<close>

definition tree_ok :: "dir_tree \<Rightarrow> bool" where
  "tree_ok t =
     (distinct (map fst t) \<and> list_all (\<lambda>e. rel_ok (fst e)) t
      \<and> list_all (\<lambda>e. list_all (\<lambda>q. map_of t q = Some Dir) (ancestors (butlast (fst e)))) t)"

text \<open>The record of the manifest that line 104 writes for a file of the new tree.\<close>

definition record_of :: "caps \<Rightarrow> path \<times> bytes \<Rightarrow> string \<times> string \<times> nat" where
  "record_of X file = (as_posix (fst file), sha256sum X (snd file), length (snd file))"

text \<open>Two paths that \<open>create_patch\<close> gives the same container name.\<close>

definition same_container_name :: "path \<Rightarrow> path \<Rightarrow> bool" where
  "same_container_name p q = (patch_name_of (as_posix p) = patch_name_of (as_posix q))"

text \<open>The three extensions, and the names of the entries a path can get.\<close>

definition kinds :: "string set" where
  "kinds = {''.patch'', ''.full'', ''.delete''}"

definition entry_names :: "path \<Rightarrow> string set" where
  "entry_names p = (\<lambda>ext. patch_name_of (as_posix p) @ ext) ` kinds"

text \<open>
  The contract of the delta codec: applying to the old content the delta made from the old and
  the new content gives the new content.
\<close>

definition codec_ok :: "caps \<Rightarrow> bool" where
  "codec_ok X = (\<forall>old new. detools_apply_patch X old (detools_create_patch X old new) = Rebuilt new)"

text \<open>
  No path is a regular file in one tree and a directory in the other.
\<close>

definition compatible :: "dir_tree \<Rightarrow> dir_tree \<Rightarrow> bool" where
  "compatible old new =
     list_all (\<lambda>e. case (snd e, map_of new (fst e)) of
                      (File c, Some Dir) \<Rightarrow> False
                    | (Dir, Some (File c)) \<Rightarrow> False
                    | _ \<Rightarrow> True) old"

text \<open>
  No file whose content differs between the trees has, in either tree, a path with the name of
  its scratch file, the file name followed by \<open>.tmp\<close>.
\<close>

definition tmp_free :: "dir_tree \<Rightarrow> dir_tree \<Rightarrow> bool" where
  "tmp_free old new =
     list_all (\<lambda>e. case map_of new (fst e) of
                      Some (File c) \<Rightarrow>
                        c = snd e \<or> (map_of old (tmp_new (fst e)) = None \<and> map_of new (tmp_new (fst e)) = None)
                    | _ \<Rightarrow> True) (rglob_files old)"

text \<open>
  The paths of the files of both trees.
\<close>

definition file_paths :: "dir_tree \<Rightarrow> dir_tree \<Rightarrow> path list" where
  "file_paths old new = map fst (rglob_files old) @ map fst (rglob_files new)"

text \<open>
  A pair of trees that \<open>create_patch\<close> and \<open>apply_patch\<close> handle: both well-formed, the
  container name readable back on every file path, and the two conditions above.
\<close>

definition patchable :: "dir_tree \<Rightarrow> dir_tree \<Rightarrow> bool" where
  "patchable old new =
     (tree_ok old \<and> tree_ok new \<and> list_all reversible (file_paths old new)
      \<and> compatible old new \<and> tmp_free old new)"

text \<open>
  The name of the patch file of a path and an extension, as lines 117, 122 and 134 build it.
\<close>

definition entry_name :: "path \<Rightarrow> string \<Rightarrow> string" where
  "entry_name p ext = patch_name_of (as_posix p) @ ext"

text \<open>
  What the two loops of \<open>create_patch\<close> decide for a path: the extension and the content of
  its patch file, or no patch file.
\<close>

definition classify :: "caps \<Rightarrow> dir_tree \<Rightarrow> dir_tree \<Rightarrow> path \<Rightarrow> (string \<times> bytes) option" where
  "classify X old new p =
     (case (map_of old p, map_of new p) of
        (Some (File co), Some (File cn)) \<Rightarrow>
          if co = cn then None else Some (''.patch'', detools_create_patch X co cn)
      | (None, Some (File cn)) \<Rightarrow> Some (''.full'', cn)
      | (Some (File co), None) \<Rightarrow> Some (''.delete'', ''DELETE'')
      | _ \<Rightarrow> None)"

text \<open>
  The patch file of a path, if it gets one.
\<close>

definition entry_of :: "caps \<Rightarrow> dir_tree \<Rightarrow> dir_tree \<Rightarrow> path \<Rightarrow> (string \<times> bytes) option" where
  "entry_of X old new p =
     map_option (\<lambda>e. (entry_name p (fst e), snd e)) (classify X old new p)"

text \<open>
  The patch files of all paths.
\<close>

definition planned :: "caps \<Rightarrow> dir_tree \<Rightarrow> dir_tree \<Rightarrow> (string \<times> bytes) set" where
  "planned X old new =
     {e. \<exists>p. entry_of X old new p = Some e}"

text \<open>
  The patch file that the body of the first loop writes for a file of the new tree, if any.
\<close>

definition emit_new :: "caps \<Rightarrow> dir_tree \<Rightarrow> path \<times> bytes \<Rightarrow> (string \<times> bytes) option" where
  "emit_new X old file =
     (case tree_node old (joinpath [] (as_posix (fst file))) of
        Some (File c) \<Rightarrow>
          if c = snd file then None
          else Some (patch_name_of (as_posix (fst file)) @ ''.patch'', detools_create_patch X c (snd file))
      | Some Dir \<Rightarrow> None
      | None \<Rightarrow> Some (patch_name_of (as_posix (fst file)) @ ''.full'', snd file))"

text \<open>
  The patch file that the body of the second loop writes for a file of the old tree, if any.
\<close>

definition emit_old :: "dir_tree \<Rightarrow> path \<times> bytes \<Rightarrow> (string \<times> bytes) option" where
  "emit_old new file =
     (if tree_node new (joinpath [] (as_posix (fst file))) = None
      then Some (patch_name_of (as_posix (fst file)) @ ''.delete'', ''DELETE'') else None)"

text \<open>
  Writing a patch file, if there is one, into \<open>patch_tmp\<close>.
\<close>

definition put :: "(string \<times> bytes) option \<Rightarrow> (string \<times> bytes) list \<Rightarrow> (string \<times> bytes) list" where
  "put e al = (case e of None \<Rightarrow> al | Some (k, v) \<Rightarrow> AList.update k v al)"

text \<open>
  The tree when the entries of the paths in \<open>S\<close> have been applied: the new tree on
  \<open>S\<close>, the old tree elsewhere.
\<close>

definition cur :: "path set \<Rightarrow> dir_tree \<Rightarrow> dir_tree \<Rightarrow> path \<Rightarrow> node option" where
  "cur S old new q = (if q \<in> S then map_of new q else map_of old q)"

text \<open>
  The invariant of the loop of \<open>apply_patch\<close> on the package of two patchable trees: the
  files of the file system are those of the tree above, below \<open>game_dir\<close>, and every
  directory below \<open>game_dir\<close> is a directory of one of the trees.
\<close>

definition fs_inv :: "path \<Rightarrow> dir_tree \<Rightarrow> dir_tree \<Rightarrow> path set \<Rightarrow> fs \<Rightarrow> bool" where
  "fs_inv g old new S f =
     ((\<forall>a c. f a = Some (File c) \<longleftrightarrow> (\<exists>q. a = g @ q \<and> cur S old new q = Some (File c)))
      \<and> (\<forall>q. f (g @ q) = Some Dir \<longrightarrow> q = [] \<or> map_of old q = Some Dir \<or> map_of new q = Some Dir))"

text \<open>
  Every file under \<open>rollback_dir\<close> is the backup of a file of the old tree.
\<close>

definition store_inv :: "dir_tree \<Rightarrow> (path \<times> bytes) list \<Rightarrow> bool" where
  "store_inv old rb = (\<forall>k \<in> fst ` set rb. \<exists>c. map_of old k = Some (File c))"

section \<open>Container names\<close>

lemma split_sep_no_sep: "CHR ''/'' \<notin> set x \<Longrightarrow> split_sep x = [x]"
  by (induction x) auto

lemma split_sep_append:
  "CHR ''/'' \<notin> set x \<Longrightarrow> split_sep (x @ CHR ''/'' # s) = x # split_sep s"
  by (induction x) auto

lemma split_sep_as_posix:
  "p \<noteq> [] \<Longrightarrow> list_all (\<lambda>x. CHR ''/'' \<notin> set x) p \<Longrightarrow> split_sep (as_posix p) = p"
  by (induction p rule: as_posix.induct) (auto simp: split_sep_no_sep split_sep_append)

lemma as_posix_hd: "rel_ok p \<Longrightarrow> as_posix p \<noteq> [] \<and> hd (as_posix p) \<noteq> CHR ''/''"
  by (induction p rule: as_posix.induct) (auto simp: rel_ok_def name_ok_def dest: hd_in_set)

lemma path_parts_as_posix: "rel_ok p \<Longrightarrow> path_parts (as_posix p) = p"
proof -
  assume a: "rel_ok p"
  then have s: "split_sep (as_posix p) = p"
    by (intro split_sep_as_posix) (auto simp: rel_ok_def name_ok_def list_all_iff)
  from as_posix_hd[OF a] have h: "take 1 (as_posix p) \<noteq> ''/''" "take 2 (as_posix p) \<noteq> ''//''"
    by (cases "as_posix p"; auto)+
  have "filter (\<lambda>x. x \<noteq> [] \<and> x \<noteq> ''.'') p = p"
    using a by (auto simp: rel_ok_def name_ok_def list_all_iff intro!: filter_True)
  with s h show ?thesis by (simp add: path_parts_def)
qed

lemma rel_path_of_other: "a \<noteq> CHR ''_'' \<Longrightarrow> rel_path_of (a # t) = a # rel_path_of t"
  by (cases t) auto

lemma rel_path_of_single:
  "t = [] \<or> hd t \<noteq> CHR ''_'' \<Longrightarrow> rel_path_of (a # t) = a # rel_path_of t"
  by (cases t) auto

lemma rel_path_of_patch_name_of: "no_marker s \<Longrightarrow> rel_path_of (patch_name_of s) = s"
proof (induction s)
  case Nil
  then show ?case by simp
next
  case (Cons c s)
  have nm: "no_marker s" using Cons.prems by (cases s) auto
  show ?case
  proof (cases "c = CHR ''_''")
    case True
    have "s = [] \<or> (hd s \<noteq> CHR ''_'' \<and> hd s \<noteq> CHR ''/'')"
      using Cons.prems True by (cases s) auto
    then have "patch_name_of s = [] \<or> hd (patch_name_of s) \<noteq> CHR ''_''"
      by (cases s) auto
    then show ?thesis using True Cons.IH[OF nm] by (simp add: rel_path_of_single)
  next
    case False
    then show ?thesis using Cons.IH[OF nm] by (simp add: rel_path_of_other)
  qed
qed

lemma splitext_suffix:
  assumes "list_ex (\<lambda>c. c \<noteq> CHR ''.'') s" "CHR ''.'' \<notin> set e"
  shows "splitext (s @ CHR ''.'' # e) = (s, CHR ''.'' # e)"
proof -
  have "takeWhile (\<lambda>c. c \<noteq> CHR ''.'') (rev e @ CHR ''.'' # rev s) = rev e"
    using assms(2) by (auto simp: takeWhile_tail takeWhile_eq_all_conv)
  then show ?thesis using assms(1) by (simp add: splitext_def)
qed

lemma patch_name_of_not_dots:
  "list_ex (\<lambda>c. c \<noteq> CHR ''.'') s \<Longrightarrow> list_ex (\<lambda>c. c \<noteq> CHR ''.'') (patch_name_of s)"
  by (induction s) auto

lemma splitext_kind:
  assumes "list_ex (\<lambda>c. c \<noteq> CHR ''.'') s" "ext \<in> {''.patch'', ''.full'', ''.delete''}"
  shows "splitext (patch_name_of s @ ext) = (patch_name_of s, ext)"
proof -
  obtain e where e: "ext = CHR ''.'' # e" "CHR ''.'' \<notin> set e"
    using assms(2) by auto
  show ?thesis unfolding e(1)
    by (rule splitext_suffix[OF patch_name_of_not_dots[OF assms(1)] e(2)])
qed

lemma reversible_decode:
  "reversible p \<Longrightarrow> path_parts (rel_path_of (patch_name_of (as_posix p))) = p"
  by (simp add: reversible_def rel_path_of_patch_name_of path_parts_as_posix)

text \<open>
  C5, as the code has it: on relative paths that hold no underscore followed by an
  underscore or a slash, and hold a character other than the dot, the container names of
  two distinct paths differ, and \<open>apply_patch\<close> reads the path and the kind of entry back
  from the name.
\<close>

theorem container_name_reversible:
  assumes "reversible p" and "ext \<in> {''.patch'', ''.full'', ''.delete''}"
  shows "inj_on (\<lambda>q. patch_name_of (as_posix q)) (Collect reversible)
       \<and> splitext (patch_name_of (as_posix p) @ ext) = (patch_name_of (as_posix p), ext)
       \<and> path_parts (rel_path_of (patch_name_of (as_posix p))) = p"
proof (intro conjI inj_onI)
  fix q r
  assume "q \<in> Collect reversible" "r \<in> Collect reversible"
    and "patch_name_of (as_posix q) = patch_name_of (as_posix r)"
  then have "path_parts (rel_path_of (patch_name_of (as_posix q)))
           = path_parts (rel_path_of (patch_name_of (as_posix r)))"
    and "reversible q" "reversible r"
    by simp_all
  then show "q = r"
    by (simp add: reversible_decode)
next
  show "splitext (patch_name_of (as_posix p) @ ext) = (patch_name_of (as_posix p), ext)"
    using assms by (intro splitext_kind) (auto simp: reversible_def)
next
  show "path_parts (rel_path_of (patch_name_of (as_posix p))) = p"
    using assms(1) by (rule reversible_decode)
qed

theorem container_name_reversible_witness:
  "reversible [''data'', ''level_1.bin'']
   \<and> ''.patch'' \<in> {''.patch'', ''.full'', ''.delete''}
   \<and> inj_on (\<lambda>q. patch_name_of (as_posix q)) (Collect reversible)
   \<and> splitext (patch_name_of (as_posix [''data'', ''level_1.bin'']) @ ''.patch'')
        = (''data__level_1.bin'', ''.patch'')
   \<and> path_parts (rel_path_of (patch_name_of (as_posix [''data'', ''level_1.bin''])))
        = [''data'', ''level_1.bin'']"
proof -
  have a: "reversible [''data'', ''level_1.bin'']"
    by (simp add: reversible_def rel_ok_def name_ok_def)
  have c: "''.patch'' \<in> {''.patch'', ''.full'', ''.delete''}"
    by simp
  show ?thesis
    using container_name_reversible[OF a c] a by simp
qed

text \<open>
  C5 as stated fails: the two distinct relative paths \<open>a/b\<close> and \<open>a__b\<close> get the same
  container name.
\<close>

theorem container_name_collision:
  "[''a'', ''b''] \<noteq> [''a__b'']
   \<and> rel_ok [''a'', ''b''] \<and> rel_ok [''a__b'']
   \<and> patch_name_of (as_posix [''a'', ''b'']) = patch_name_of (as_posix [''a__b''])"
  by (simp add: rel_ok_def name_ok_def)

section \<open>The destination of create\_patch\<close>

lemmas create_defs =
  create_patch_def collect_def rglob_files_def List.map_filter_def new_file_step_def
  old_file_step_def tree_node_def joinpath_def path_parts_def is_absolute_def is_root_def
  Let_def never_def set_before_def sample_caps_def

lemma new_file_step_error:
  "new_file_step X old st file = Inl e \<Longrightarrow> e \<noteq> WriteError"
  by (auto simp: new_file_step_def Let_def split: option.splits node.splits if_splits)

lemma new_files_loop_error:
  "new_files_loop X cancelled old i files st = Inl e \<Longrightarrow> e \<noteq> WriteError"
proof (induction files arbitrary: i st)
  case Nil
  then show ?case by simp
next
  case (Cons entry rest)
  then show ?case
    by (auto split: if_splits sum.splits dest: new_file_step_error)
qed

lemma old_files_loop_error:
  "old_files_loop cancelled new i files st = Inl e \<Longrightarrow> e = InterruptedError"
  by (induction files arbitrary: i st) (auto split: if_splits)

lemma collect_error: "collect X cancelled old new = Inl e \<Longrightarrow> e \<noteq> WriteError"
  by (auto simp: collect_def Let_def split: sum.splits
      dest: new_files_loop_error old_files_loop_error)

text \<open>
  C6, as the code has it: a run of \<open>create_patch\<close> that ends in anything but a failed
  write of the archive, a cancellation among them, leaves the destination path as it was
  before the run. Every cancellation check and every comparison of the trees comes before
  the archive is opened.
\<close>

theorem create_patch_destination_untouched:
  assumes "snd (create_patch X cancelled write_fails old new patch_package) = Inl e"
    and "e \<noteq> WriteError"
  shows "fst (create_patch X cancelled write_fails old new patch_package) = patch_package"
  using assms
  by (auto simp: create_patch_def split: sum.splits option.splits dest: collect_error)

theorem create_patch_destination_untouched_witness:
  "snd (create_patch sample_caps (set_before 1) None [] [([''a''], File ''x''), ([''b''], File ''y'')]
          (Some (Truncated 7))) = Inl InterruptedError
   \<and> InterruptedError \<noteq> WriteError
   \<and> fst (create_patch sample_caps (set_before 1) None [] [([''a''], File ''x''), ([''b''], File ''y'')]
          (Some (Truncated 7))) = Some (Truncated 7)"
proof -
  have a: "snd (create_patch sample_caps (set_before 1) None [] [([''a''], File ''x''), ([''b''], File ''y'')]
          (Some (Truncated 7))) = Inl InterruptedError"
    by (simp add: create_defs)
  have b: "InterruptedError \<noteq> WriteError" by simp
  show ?thesis
    using create_patch_destination_untouched[OF a b] a by simp
qed

text \<open>
  C6 as stated fails: when a write of the archive fails after three bytes, the run ends
  with the error and the file of three bytes stays at the destination, where there was
  no file before.
\<close>

theorem create_patch_leaves_partial_file:
  "create_patch sample_caps never (Some 3) [] [([''a''], File ''x'')] None
     = (Some (Truncated 3), Inl WriteError)"
  by (simp add: create_defs)

section \<open>Facts about the file system operations\<close>

lemmas apply_defs =
  apply_patch_def apply_try_def apply_entry_def dispatch_def backup_def backup_is_dir_def
  restore_file_def mkdir_def ancestors_def parent_def tmp_new_def node_at_def is_file_def
  path_exists_def joinpath_def path_parts_def splitext_def is_absolute_def is_root_def
  mount_def Let_def never_def set_before_def sample_caps_def

lemma mkdir_Inr:
  "mkdir f d = Inr f1 \<Longrightarrow>
   f1 = (\<lambda>q. if q \<in> set (ancestors d) \<and> node_at f q = None then Some Dir else f q)"
  by (auto simp: mkdir_def split: option.splits)

lemma node_at_None: "node_at f p = None \<Longrightarrow> f p = None"
  by (auto simp: node_at_def split: if_splits)

lemma mkdir_keeps: "mkdir f d = Inr f1 \<Longrightarrow> f p = Some n \<Longrightarrow> f1 p = Some n"
  by (auto simp: dest!: mkdir_Inr node_at_None)

lemma mkdir_changes:
  "mkdir f d = Inr f1 \<Longrightarrow> f1 p \<noteq> f p \<Longrightarrow>
   f p = None \<and> f1 p = Some Dir \<and> p \<in> set (ancestors d)"
  by (auto dest!: mkdir_Inr node_at_None split: if_splits)

lemma not_root_suffix: "\<not> is_root (x @ ''.tmp'')"
proof
  assume "is_root (x @ ''.tmp'')"
  then have "length (x @ ''.tmp'') \<le> 2" by (auto simp: is_root_def)
  then show False by simp
qed

lemma tmp_new_plain:
  "tmp_new t \<noteq> [] \<and> \<not> (length (tmp_new t) = 1 \<and> is_root (hd (tmp_new t)))"
proof (cases t)
  case Nil
  then show ?thesis by (simp add: tmp_new_def is_root_def)
next
  case (Cons x xs)
  then show ?thesis
    using not_root_suffix[of x] by (cases xs) (auto simp: tmp_new_def)
qed

lemma node_at_tmp_new: "node_at f (tmp_new t) = f (tmp_new t)"
  using tmp_new_plain[of t] by (auto simp: node_at_def)

section \<open>The scratch file of a delta\<close>

lemma dispatch_PatchError:
  "dispatch X ext n t d f = (f', Some (PatchError t')) \<Longrightarrow> \<exists>w. f' (tmp_new t') = Some (File w)"
  by (auto simp: dispatch_def split: if_splits option.splits node.splits patch_result.splits)

lemma backup_error: "backup rb rel t n = Inl e \<Longrightarrow> e \<noteq> PatchError t'"
  by (auto simp: backup_def Let_def split: if_splits option.splits node.splits)

lemma apply_entry_PatchError:
  "apply_entry X g s e = (s', Some (PatchError t)) \<Longrightarrow> \<exists>w. tree s' (tmp_new t) = Some (File w)"
  by (auto simp: apply_entry_def Let_def mkdir_def split: prod.splits sum.splits option.splits
      if_splits dest: dispatch_PatchError backup_error)

lemma apply_entries_PatchError:
  "apply_entries X cancelled g i es s = (s', Some (PatchError t)) \<Longrightarrow>
   \<exists>w. tree s' (tmp_new t) = Some (File w)"
proof (induction es arbitrary: i s)
  case Nil
  then show ?case by simp
next
  case (Cons e es)
  then show ?case
    by (auto split: if_splits prod.splits option.splits dest: apply_entry_PatchError)
qed

lemma validate_error: "validate X g f m = Inl e \<Longrightarrow> \<exists>p. e = IsADirectoryError p"
  by (induction m) (auto split: option.splits node.splits if_splits sum.splits simp: map_sum_def)

lemma apply_try_PatchError:
  "apply_try X cancelled g a f = (s, Some (PatchError t)) \<Longrightarrow>
   \<exists>w. tree s (tmp_new t) = Some (File w)"
  by (auto simp: apply_try_def Let_def split: archive.splits manifest_file.splits prod.splits
      option.splits sum.splits if_splits dest: apply_entries_PatchError validate_error)

lemma restore_file_keeps_file:
  "restore_file g k c f = Inr f' \<Longrightarrow> f p = Some (File w) \<Longrightarrow> \<exists>w'. f' p = Some (File w')"
  by (auto simp: restore_file_def Let_def split: sum.splits option.splits node.splits
      dest: mkdir_keeps)

lemma restore_keeps_file:
  "f p = Some (File w) \<Longrightarrow> \<exists>w'. fst (restore g rb f) p = Some (File w')"
proof (induction rb arbitrary: f w)
  case Nil
  then show ?case by simp
next
  case (Cons b rb)
  obtain k c where b: "b = (k, c)" by (cases b)
  show ?case
  proof (cases "restore_file g k c f")
    case (Inl e)
    then show ?thesis using Cons.prems b by simp
  next
    case (Inr f')
    from restore_file_keeps_file[OF Inr Cons.prems] obtain w' where w': "f' p = Some (File w')" ..
    have "\<exists>w''. fst (restore g rb f') p = Some (File w'')"
      using w' by (rule Cons.IH[of f' w'])
    then show ?thesis using Inr b by simp
  qed
qed

text \<open>
  C10: when the reconstruction of a delta raises, the scratch file beside the target, named
  after it with the suffix \<open>.tmp\<close>, is still a file of the tree when \<open>apply_patch\<close> has
  finished: the rollback copies files back and removes nothing.
\<close>

theorem scratch_file_left_behind:
  assumes "snd (apply_try X cancelled game_dir a f) = Some (PatchError target_file)"
  shows "is_file (fst (apply_patch X cancelled game_dir a f)) (tmp_new target_file)"
proof -
  obtain s where s: "apply_try X cancelled game_dir a f = (s, Some (PatchError target_file))"
    using assms by (cases "apply_try X cancelled game_dir a f") simp
  from apply_try_PatchError[OF s] obtain w where w: "tree s (tmp_new target_file) = Some (File w)" ..
  have "\<exists>w'. fst (restore game_dir (rollback_dir s) (tree s)) (tmp_new target_file) = Some (File w')"
    using w by (rule restore_keeps_file[of "tree s" "tmp_new target_file" w])
  then show ?thesis
    using s by (auto simp: apply_patch_def is_file_def node_at_tmp_new split: prod.splits option.splits)
qed

theorem scratch_file_left_behind_witness:
  "snd (apply_try sample_caps never [''game''] (Archive (Manifest []) [(''a.patch'', ''Zqq'')])
          (mount [''game''] [([''a''], File ''orig'')])) = Some (PatchError [''game'', ''a''])
   \<and> is_file (fst (apply_patch sample_caps never [''game''] (Archive (Manifest []) [(''a.patch'', ''Zqq'')])
          (mount [''game''] [([''a''], File ''orig'')]))) (tmp_new [''game'', ''a''])
   \<and> tmp_new [''game'', ''a''] = [''game'', ''a.tmp'']"
proof -
  have a: "snd (apply_try sample_caps never [''game''] (Archive (Manifest []) [(''a.patch'', ''Zqq'')])
          (mount [''game''] [([''a''], File ''orig'')])) = Some (PatchError [''game'', ''a''])"
    by code_simp
  have b: "tmp_new [''game'', ''a''] = [''game'', ''a.tmp'']"
    by code_simp
  show ?thesis
    using scratch_file_left_behind[OF a] a b by simp
qed

section \<open>The rollback\<close>

lemma ancestors_iff: "q \<in> set (ancestors d) \<longleftrightarrow> q \<noteq> [] \<and> prefix q d"
proof
  assume "q \<in> set (ancestors d)"
  then obtain n where "1 \<le> n" "n \<le> length d" "q = take n d"
    by (auto simp: ancestors_def)
  then show "q \<noteq> [] \<and> prefix q d"
    by (auto simp: take_is_prefix)
next
  assume a: "q \<noteq> [] \<and> prefix q d"
  then obtain r where "d = q @ r" by (auto simp: prefix_def)
  then have "q = take (length q) d" "1 \<le> length q" "length q \<le> length d"
    using a by (auto simp: Suc_le_eq)
  then show "q \<in> set (ancestors d)"
    unfolding ancestors_def by (metis (no_types, lifting) atLeastLessThan_iff image_eqI le_imp_less_Suc set_map set_upt)
qed

lemma backup_is_dir_iff: "backup_is_dir rb p \<longleftrightarrow> p = [] \<or> (\<exists>k \<in> fst ` set rb. strict_prefix p k)"
  by (auto simp: backup_is_dir_def list_ex_iff)

lemma backup_Inr:
  assumes "backup rb rel t n = Inr rb'"
  obtains kk c where "n = File c" "rb' = AList.update kk c rb"
    "\<not> is_absolute (path_parts rel)"
    "kk = path_parts rel \<or> (backup_is_dir rb (path_parts rel) \<and> kk = path_parts rel @ [last t])"
    "\<not> backup_is_dir rb kk"
    "\<forall>q \<in> set (ancestors (parent (path_parts rel))). q \<notin> fst ` set rb"
  using assms
  by (auto simp: backup_def Let_def find_None_iff split: if_splits option.splits node.splits)

lemma parent_relative: "\<not> is_absolute p \<Longrightarrow> parent p = butlast p"
  by (cases p) (auto simp: parent_def is_absolute_def)

lemma strict_prefix_butlast: "strict_prefix q p \<Longrightarrow> prefix q (butlast p)"
  by (metis append_butlast_last_id prefix_order.less_le prefix_snoc strict_prefix_simps(1))

lemma backup_store_ok:
  assumes "backup rb rel t n = Inr rb'" "store_ok rb"
  shows "store_ok rb'"
proof -
  from assms(1) obtain kk c where n: "n = File c" and rb': "rb' = AList.update kk c rb"
    and rel: "\<not> is_absolute (path_parts rel)"
    and kk: "kk = path_parts rel \<or> (backup_is_dir rb (path_parts rel) \<and> kk = path_parts rel @ [last t])"
    and nd: "\<not> backup_is_dir rb kk"
    and anc: "\<forall>q \<in> set (ancestors (parent (path_parts rel))). q \<notin> fst ` set rb"
    by (rule backup_Inr)
  have ne0: "[] \<notin> fst ` set rb"
    and pf: "\<forall>k \<in> fst ` set rb. \<forall>k' \<in> fst ` set rb. \<not> strict_prefix k k'"
    using assms(2) unfolding store_ok_def by blast+
  have keys: "fst ` set rb' = insert kk (fst ` set rb)"
    unfolding rb' by (simp add: dom_update)
  have d: "distinct (map fst rb')"
    unfolding rb' using assms(2) by (simp add: store_ok_def distinct_update)
  have ne: "kk \<noteq> []" using nd by (auto simp: backup_is_dir_iff)
  have ext: "\<forall>k \<in> fst ` set rb. \<not> strict_prefix kk k"
    using nd by (auto simp: backup_is_dir_iff)
  have bp: "\<forall>k \<in> fst ` set rb. \<not> strict_prefix k (path_parts rel)"
  proof
    fix k assume k: "k \<in> fst ` set rb"
    show "\<not> strict_prefix k (path_parts rel)"
    proof
      assume "strict_prefix k (path_parts rel)"
      then have "prefix k (parent (path_parts rel))"
        by (simp add: parent_relative[OF rel] strict_prefix_butlast)
      moreover have "k \<noteq> []" using k ne0 by blast
      ultimately have "k \<in> set (ancestors (parent (path_parts rel)))"
        by (simp add: ancestors_iff)
      with anc k show False by blast
    qed
  qed
  have pre: "\<forall>k \<in> fst ` set rb. \<not> strict_prefix k kk"
  proof
    fix k assume k: "k \<in> fst ` set rb"
    from kk show "\<not> strict_prefix k kk"
    proof
      assume "kk = path_parts rel"
      then show ?thesis using bp k by blast
    next
      assume a: "backup_is_dir rb (path_parts rel) \<and> kk = path_parts rel @ [last t]"
      show ?thesis
      proof
        assume "strict_prefix k kk"
        then have "prefix k (path_parts rel)" using a by (auto simp: strict_prefix_def prefix_snoc)
        then have "k = path_parts rel" using bp k by (auto simp: strict_prefix_def)
        moreover from a have "path_parts rel = [] \<or> (\<exists>k' \<in> fst ` set rb. strict_prefix (path_parts rel) k')"
          by (simp add: backup_is_dir_iff)
        ultimately show False using k ne0 pf by metis
      qed
    qed
  qed
  have "\<forall>k \<in> insert kk (fst ` set rb). \<forall>k' \<in> insert kk (fst ` set rb). \<not> strict_prefix k k'"
    using ext pre pf by (metis insert_iff strict_prefix_simps(1) prefix_order.less_irrefl)
  moreover have "[] \<notin> insert kk (fst ` set rb)"
    using ne ne0 by blast
  ultimately show ?thesis
    unfolding store_ok_def keys using d by blast
qed

lemma apply_entry_store_ok:
  "store_ok (rollback_dir s) \<Longrightarrow> store_ok (rollback_dir (fst (apply_entry X g s e)))"
  by (auto simp: apply_entry_def Let_def split: prod.splits sum.splits option.splits
      dest: backup_store_ok)

lemma apply_entries_store_ok:
  "store_ok (rollback_dir s) \<Longrightarrow> store_ok (rollback_dir (fst (apply_entries X cancelled g i es s)))"
proof (induction es arbitrary: i s)
  case Nil
  then show ?case by simp
next
  case (Cons e es)
  show ?case
  proof (cases "apply_entry X g s e")
    case (Pair s' r)
    have ok: "store_ok (rollback_dir s')"
      using apply_entry_store_ok[OF Cons.prems, of X g e] Pair by simp
    show ?thesis
      using Cons.prems Pair ok Cons.IH[OF ok] by (auto split: option.splits)
  qed
qed

lemma mkdir_node_at: "mkdir f d = Inr f1 \<Longrightarrow> node_at f p = Some n \<Longrightarrow> node_at f1 p = Some n"
  by (auto simp: node_at_def dest: mkdir_keeps split: if_splits)

lemma restore_file_Inr:
  assumes "restore_file g k c f = Inr f'"
  obtains f1 q where "mkdir f (parent (g @ k)) = Inr f1" "f' = f1(q \<mapsto> File c)"
    "node_at f1 q \<noteq> Some Dir"
    "q = g @ k \<or> (node_at f1 (g @ k) = Some Dir \<and> q = g @ k @ [last k])"
  using assms
  by (auto simp: restore_file_def Let_def split: sum.splits option.splits node.splits)

lemma node_at_upd_other: "p \<noteq> q \<Longrightarrow> node_at (f(q \<mapsto> n)) p = node_at f p"
  by (simp add: node_at_def)

lemma node_at_upd_same:
  "node_at f q \<noteq> Some Dir \<Longrightarrow> node_at (f(q \<mapsto> n)) q = Some n"
  by (auto simp: node_at_def)

lemma restore_file_Dir:
  assumes "restore_file g k c f = Inr f'" "node_at f p = Some Dir"
  shows "node_at f' p = Some Dir"
proof -
  from assms(1) obtain f1 q where f1: "mkdir f (parent (g @ k)) = Inr f1"
    and f': "f' = f1(q \<mapsto> File c)" and q: "node_at f1 q \<noteq> Some Dir"
    by (rule restore_file_Inr)
  have "node_at f1 p = Some Dir" using mkdir_node_at[OF f1 assms(2)] .
  moreover from this q have "p \<noteq> q" by auto
  ultimately show ?thesis unfolding f' by (simp add: node_at_upd_other)
qed

lemma restore_Dir:
  "node_at f p = Some Dir \<Longrightarrow> node_at (fst (restore g rb f)) p = Some Dir"
proof (induction rb arbitrary: f)
  case Nil
  then show ?case by simp
next
  case (Cons b rb)
  obtain k c where b: "b = (k, c)" by (cases b)
  show ?case
  proof (cases "restore_file g k c f")
    case (Inl e)
    then show ?thesis using Cons.prems b by simp
  next
    case (Inr f')
    have "node_at f' p = Some Dir" using restore_file_Dir[OF Inr Cons.prems] .
    then have "node_at (fst (restore g rb f')) p = Some Dir" by (rule Cons.IH)
    then show ?thesis using Inr b by simp
  qed
qed

lemma restore_file_target:
  assumes "restore_file g k c f = Inr f'"
  shows "node_at f' (g @ k) = Some (File c) \<or> node_at f' (g @ k) = Some Dir"
proof -
  from assms(1) obtain f1 q where f1: "mkdir f (parent (g @ k)) = Inr f1"
    and f': "f' = f1(q \<mapsto> File c)" and q: "node_at f1 q \<noteq> Some Dir"
    and qq: "q = g @ k \<or> (node_at f1 (g @ k) = Some Dir \<and> q = g @ k @ [last k])"
    by (rule restore_file_Inr)
  from qq show ?thesis
  proof
    assume "q = g @ k"
    then show ?thesis unfolding f' using q by (simp add: node_at_upd_same)
  next
    assume a: "node_at f1 (g @ k) = Some Dir \<and> q = g @ k @ [last k]"
    then have "g @ k \<noteq> q" by simp
    then show ?thesis unfolding f' using a by (simp add: node_at_upd_other)
  qed
qed

lemma restore_file_other:
  assumes "restore_file g k c f = Inr f'" "node_at f p = Some (File w)" "p \<noteq> g @ k"
    "\<not> strict_prefix (g @ k) p"
  shows "node_at f' p = Some (File w)"
proof -
  from assms(1) obtain f1 q where f1: "mkdir f (parent (g @ k)) = Inr f1"
    and f': "f' = f1(q \<mapsto> File c)" and q: "node_at f1 q \<noteq> Some Dir"
    and qq: "q = g @ k \<or> (node_at f1 (g @ k) = Some Dir \<and> q = g @ k @ [last k])"
    by (rule restore_file_Inr)
  have "node_at f1 p = Some (File w)" using mkdir_node_at[OF f1 assms(2)] .
  moreover have "p \<noteq> q" using qq assms(3,4) by (auto simp: strict_prefix_def)
  ultimately show ?thesis unfolding f' by (simp add: node_at_upd_other)
qed

lemma strict_prefix_same_append: "strict_prefix (g @ a) (g @ b) \<longleftrightarrow> strict_prefix a b"
  by (auto simp: strict_prefix_def)

lemma restore_keeps_content:
  "node_at f (g @ k) = Some (File w) \<Longrightarrow>
   \<forall>k' \<in> fst ` set rb. k' \<noteq> k \<and> \<not> strict_prefix k' k \<Longrightarrow>
   node_at (fst (restore g rb f)) (g @ k) = Some (File w)"
proof (induction rb arbitrary: f)
  case Nil
  then show ?case by simp
next
  case (Cons b rb)
  obtain k0 c0 where b: "b = (k0, c0)" by (cases b)
  have k0: "k0 \<noteq> k" "\<not> strict_prefix k0 k" using Cons.prems(2) b by auto
  have rest: "\<forall>k' \<in> fst ` set rb. k' \<noteq> k \<and> \<not> strict_prefix k' k" using Cons.prems(2) by auto
  show ?case
  proof (cases "restore_file g k0 c0 f")
    case (Inl e)
    then show ?thesis using Cons.prems b by simp
  next
    case (Inr f')
    have "node_at f' (g @ k) = Some (File w)"
      using restore_file_other[OF Inr Cons.prems(1)] k0 by (simp add: strict_prefix_same_append)
    then have "node_at (fst (restore g rb f')) (g @ k) = Some (File w)"
      using rest by (rule Cons.IH)
    then show ?thesis using Inr b by simp
  qed
qed

lemma store_ok_tail: "store_ok (b # rb) \<Longrightarrow> store_ok rb"
  unfolding store_ok_def by (simp; blast)

lemma store_ok_head:
  "store_ok ((k, c) # rb) \<Longrightarrow> \<forall>k' \<in> fst ` set rb. k' \<noteq> k \<and> \<not> strict_prefix k' k"
  unfolding store_ok_def by (simp; blast)

lemma restore_content:
  "snd (restore g rb f) = None \<Longrightarrow> store_ok rb \<Longrightarrow> (k, c) \<in> set rb \<Longrightarrow>
   node_at (fst (restore g rb f)) (g @ k) = Some (File c)
   \<or> node_at (fst (restore g rb f)) (g @ k) = Some Dir"
proof (induction rb arbitrary: f)
  case Nil
  then show ?case by simp
next
  case (Cons b rb)
  obtain k0 c0 where b: "b = (k0, c0)" by (cases b)
  show ?case
  proof (cases "restore_file g k0 c0 f")
    case (Inl e)
    then show ?thesis using Cons.prems(1) b by simp
  next
    case (Inr f')
    have r: "restore g (b # rb) f = restore g rb f'" using Inr b by simp
    show ?thesis
    proof (cases "(k, c) = (k0, c0)")
      case True
      from restore_file_target[OF Inr] True
      have "node_at f' (g @ k) = Some (File c) \<or> node_at f' (g @ k) = Some Dir" by simp
      then show ?thesis
      proof
        assume "node_at f' (g @ k) = Some (File c)"
        then have "node_at (fst (restore g rb f')) (g @ k) = Some (File c)"
          using store_ok_head[of k c rb] Cons.prems(2) b True
          by (intro restore_keeps_content) auto
        then show ?thesis using r by simp
      next
        assume "node_at f' (g @ k) = Some Dir"
        then have "node_at (fst (restore g rb f')) (g @ k) = Some Dir" by (rule restore_Dir)
        then show ?thesis using r by simp
      qed
    next
      case False
      then have "(k, c) \<in> set rb" using Cons.prems(3) b by auto
      moreover have "snd (restore g rb f') = None" using Cons.prems(1) r by simp
      moreover have "store_ok rb" using Cons.prems(2) by (rule store_ok_tail)
      ultimately show ?thesis using Cons.IH[of f'] r by simp
    qed
  qed
qed

section \<open>Validation\<close>

lemma validate_Cons_Inr:
  assumes "validate X g f (e # m) = Inr errors"
  obtains es where "validate X g f m = Inr es"
    and "errors = (if missing g f e then [''Missing file: '' @ fst e] else [])
                @ (if mismatch X g f e then [''Hash mismatch: '' @ fst e] else []) @ es"
proof (cases "validate X g f m")
  case (Inl x)
  then have False using assms
    by (cases e) (simp split: option.splits node.splits if_splits)
  then show ?thesis ..
next
  case (Inr es)
  have "errors = (if missing g f e then [''Missing file: '' @ fst e] else [])
                @ (if mismatch X g f e then [''Hash mismatch: '' @ fst e] else []) @ es"
    using assms Inr
    by (cases e) (simp add: missing_def mismatch_def split: option.splits node.splits if_splits)
  with Inr that show ?thesis by blast
qed

lemma validate_lists:
  "validate X g f m = Inr errors \<Longrightarrow>
   set errors = (\<lambda>e. ''Missing file: '' @ fst e) ` {e \<in> set m. missing g f e}
     \<union> (\<lambda>e. ''Hash mismatch: '' @ fst e) ` {e \<in> set m. mismatch X g f e}"
proof (induction m arbitrary: errors)
  case Nil
  then show ?case by simp
next
  case (Cons e m)
  from Cons.prems obtain es where es: "validate X g f m = Inr es"
    and errors: "errors = (if missing g f e then [''Missing file: '' @ fst e] else [])
                @ (if mismatch X g f e then [''Hash mismatch: '' @ fst e] else []) @ es"
    by (rule validate_Cons_Inr)
  have A: "{x \<in> set (e # m). missing g f x} = (if missing g f e then {e} else {}) \<union> {x \<in> set m. missing g f x}"
    by auto
  have B: "{x \<in> set (e # m). mismatch X g f x} = (if mismatch X g f e then {e} else {}) \<union> {x \<in> set m. mismatch X g f x}"
    by auto
  show ?case
    unfolding A B errors image_Un using Cons.IH[OF es]
    by (simp only: set_append image_Un) (auto simp del: append.simps)
qed

lemma dispatch_not_ValidationFailed: "dispatch X ext n t d f = (f', Some e) \<Longrightarrow> e \<noteq> ValidationFailed errs"
  by (auto simp: dispatch_def split: if_splits option.splits node.splits patch_result.splits)

lemma backup_not_ValidationFailed: "backup rb rel t n = Inl e \<Longrightarrow> e \<noteq> ValidationFailed errs"
  by (auto simp: backup_def Let_def split: if_splits option.splits node.splits)

lemma apply_entry_not_ValidationFailed:
  "apply_entry X g s e = (s', Some err) \<Longrightarrow> err \<noteq> ValidationFailed errs"
  by (auto simp: apply_entry_def Let_def mkdir_def split: prod.splits sum.splits option.splits
      if_splits dest: dispatch_not_ValidationFailed backup_not_ValidationFailed)

lemma apply_entries_not_ValidationFailed:
  "apply_entries X cancelled g i es s = (s', Some err) \<Longrightarrow> err \<noteq> ValidationFailed errs"
proof (induction es arbitrary: i s)
  case Nil
  then show ?case by simp
next
  case (Cons e es)
  then show ?case
    by (auto split: if_splits prod.splits option.splits dest: apply_entry_not_ValidationFailed)
qed

lemma store_ok_Nil: "store_ok []"
  by (simp add: store_ok_def)

lemma apply_try_store_ok: "store_ok (rollback_dir (fst (apply_try X cancelled g a f)))"
proof (cases a)
  case Unreadable
  then show ?thesis by (simp add: apply_try_def store_ok_Nil)
next
  case (Archive mf files)
  show ?thesis
  proof (cases mf)
    case (Manifest m)
    let ?s0 = "\<lparr>tree = f, rollback_dir = []\<rparr>"
    let ?es = "filter (\<lambda>p. fst p \<noteq> ''manifest.json'') files"
    have "store_ok (rollback_dir (fst (apply_entries X cancelled g 0 ?es ?s0)))"
      by (rule apply_entries_store_ok) (simp add: store_ok_Nil)
    then show ?thesis using Archive Manifest
      by (auto simp: apply_try_def Let_def split: prod.splits option.splits sum.splits)
  qed (use Archive in \<open>simp_all add: apply_try_def store_ok_Nil\<close>)
qed

lemma apply_try_ValidationFailed:
  assumes "snd (apply_try X cancelled g (Archive (Manifest m) files) f) = Some (ValidationFailed errors)"
  shows "validate X g (tree (fst (apply_try X cancelled g (Archive (Manifest m) files) f))) m = Inr errors
         \<and> errors \<noteq> []"
  using assms
  by (auto simp: apply_try_def Let_def split: prod.splits option.splits sum.splits if_splits
      dest: apply_entries_not_ValidationFailed validate_error)

text \<open>
  C2, as the code has it: the validation of lines 226 to 237 is inside the \<open>try\<close> block,
  so when every entry has been applied and a path of the manifest is missing or has another
  digest, \<open>apply_patch\<close> raises the validation failure with one message for every
  offending record and no other, and runs the rollback like for any other failure. Unless
  the rollback raises, every path with a file under \<open>rollback_dir\<close> holds the content
  of that file again (or has become a directory during the run).
\<close>

theorem validation_failure_rolls_back:
  assumes "snd (apply_try X cancelled game_dir (Archive (Manifest m) files) f)
             = Some (ValidationFailed errors)"
    and "s = fst (apply_try X cancelled game_dir (Archive (Manifest m) files) f)"
    and "restore game_dir (rollback_dir s) (tree s) = (f', None)"
  shows "apply_patch X cancelled game_dir (Archive (Manifest m) files) f
           = (f', Inl (ValidationFailed errors))
       \<and> errors \<noteq> []
       \<and> set errors
           = (\<lambda>e. ''Missing file: '' @ fst e) ` {e \<in> set m. missing game_dir (tree s) e}
           \<union> (\<lambda>e. ''Hash mismatch: '' @ fst e) ` {e \<in> set m. mismatch X game_dir (tree s) e}
       \<and> list_all (\<lambda>(k, c). node_at f' (game_dir @ k) = Some (File c)
                              \<or> node_at f' (game_dir @ k) = Some Dir) (rollback_dir s)"
proof (intro conjI)
  from apply_try_ValidationFailed[OF assms(1)]
  have v: "validate X game_dir (tree s) m = Inr errors" and ne: "errors \<noteq> []"
    using assms(2) by simp_all
  show "errors \<noteq> []" by (rule ne)
  show "set errors
           = (\<lambda>e. ''Missing file: '' @ fst e) ` {e \<in> set m. missing game_dir (tree s) e}
           \<union> (\<lambda>e. ''Hash mismatch: '' @ fst e) ` {e \<in> set m. mismatch X game_dir (tree s) e}"
    using v by (rule validate_lists)
  have t: "apply_try X cancelled game_dir (Archive (Manifest m) files) f = (s, Some (ValidationFailed errors))"
    using assms(1,2) by (simp add: prod_eq_iff)
  show "apply_patch X cancelled game_dir (Archive (Manifest m) files) f = (f', Inl (ValidationFailed errors))"
    unfolding apply_patch_def t using assms(3) by simp
  have ok: "store_ok (rollback_dir s)"
    unfolding assms(2) by (rule apply_try_store_ok)
  have r: "snd (restore game_dir (rollback_dir s) (tree s)) = None" "fst (restore game_dir (rollback_dir s) (tree s)) = f'"
    using assms(3) by simp_all
  show "list_all (\<lambda>(k, c). node_at f' (game_dir @ k) = Some (File c)
                              \<or> node_at f' (game_dir @ k) = Some Dir) (rollback_dir s)"
    unfolding list_all_iff
  proof
    fix b assume b: "b \<in> set (rollback_dir s)"
    obtain k c where kc: "b = (k, c)" by (cases b)
    from restore_content[OF r(1) ok b[unfolded kc]]
    show "case b of (k, c) \<Rightarrow> node_at f' (game_dir @ k) = Some (File c) \<or> node_at f' (game_dir @ k) = Some Dir"
      unfolding r(2) kc by simp
  qed
qed

theorem validation_failure_rolls_back_witness:
  "snd (apply_try sample_caps never [''game'']
          (Archive (Manifest [(''a'', ''new'', 3), (''c'', ''zzz'', 3), (''b'', ''x'', 1)])
             [(''a.full'', ''new''), (''c.full'', ''abc'')])
          (mount [''game''] [([''a''], File ''old'')]))
     = Some (ValidationFailed [''Hash mismatch: c'', ''Missing file: b''])
   \<and> snd (restore [''game'']
          (rollback_dir (fst (apply_try sample_caps never [''game'']
             (Archive (Manifest [(''a'', ''new'', 3), (''c'', ''zzz'', 3), (''b'', ''x'', 1)])
                [(''a.full'', ''new''), (''c.full'', ''abc'')])
             (mount [''game''] [([''a''], File ''old'')]))))
          (tree (fst (apply_try sample_caps never [''game'']
             (Archive (Manifest [(''a'', ''new'', 3), (''c'', ''zzz'', 3), (''b'', ''x'', 1)])
                [(''a.full'', ''new''), (''c.full'', ''abc'')])
             (mount [''game''] [([''a''], File ''old'')]))))) = None
   \<and> snd (apply_patch sample_caps never [''game'']
          (Archive (Manifest [(''a'', ''new'', 3), (''c'', ''zzz'', 3), (''b'', ''x'', 1)])
             [(''a.full'', ''new''), (''c.full'', ''abc'')])
          (mount [''game''] [([''a''], File ''old'')]))
     = Inl (ValidationFailed [''Hash mismatch: c'', ''Missing file: b''])"
proof -
  let ?a = "Archive (Manifest [(''a'', ''new'', 3), (''c'', ''zzz'', 3), (''b'', ''x'', 1)])
             [(''a.full'', ''new''), (''c.full'', ''abc'')]"
  let ?f = "mount [''game''] [([''a''], File ''old'')]"
  let ?s = "fst (apply_try sample_caps never [''game''] ?a ?f)"
  have a: "snd (apply_try sample_caps never [''game''] ?a ?f)
             = Some (ValidationFailed [''Hash mismatch: c'', ''Missing file: b''])"
    by code_simp
  have b: "snd (restore [''game''] (rollback_dir ?s) (tree ?s)) = None"
    by code_simp
  have c: "restore [''game''] (rollback_dir ?s) (tree ?s)
             = (fst (restore [''game''] (rollback_dir ?s) (tree ?s)), None)"
    using b by (simp add: prod_eq_iff)
  show ?thesis
    using validation_failure_rolls_back[OF a refl c] a b by simp
qed

text \<open>
  C2 as stated fails: the entry \<open>a.full\<close> is applied, the manifest names a path \<open>b\<close>
  that is missing, and after the validation failure the file \<open>a\<close> holds its content
  from before the run again.
\<close>

theorem validation_failure_restores_old_content:
  "mount [''game''] [([''a''], File ''old'')] [''game'', ''a''] = Some (File ''old'')
   \<and> tree (fst (apply_try sample_caps never [''game'']
          (Archive (Manifest [(''b'', ''x'', 1)]) [(''a.full'', ''new'')])
          (mount [''game''] [([''a''], File ''old'')]))) [''game'', ''a''] = Some (File ''new'')
   \<and> snd (apply_entries sample_caps never [''game''] 0 [(''a.full'', ''new'')]
          \<lparr>tree = mount [''game''] [([''a''], File ''old'')], rollback_dir = []\<rparr>) = None
   \<and> snd (apply_patch sample_caps never [''game'']
          (Archive (Manifest [(''b'', ''x'', 1)]) [(''a.full'', ''new'')])
          (mount [''game''] [([''a''], File ''old'')]))
        = Inl (ValidationFailed [''Missing file: b''])
   \<and> fst (apply_patch sample_caps never [''game'']
          (Archive (Manifest [(''b'', ''x'', 1)]) [(''a.full'', ''new'')])
          (mount [''game''] [([''a''], File ''old'')])) [''game'', ''a''] = Some (File ''old'')"
proof (intro conjI)
  show "mount [''game''] [([''a''], File ''old'')] [''game'', ''a''] = Some (File ''old'')"
    by code_simp
  show "tree (fst (apply_try sample_caps never [''game'']
          (Archive (Manifest [(''b'', ''x'', 1)]) [(''a.full'', ''new'')])
          (mount [''game''] [([''a''], File ''old'')]))) [''game'', ''a''] = Some (File ''new'')"
    by code_simp
  show "snd (apply_entries sample_caps never [''game''] 0 [(''a.full'', ''new'')]
          \<lparr>tree = mount [''game''] [([''a''], File ''old'')], rollback_dir = []\<rparr>) = None"
    by code_simp
  show "snd (apply_patch sample_caps never [''game'']
          (Archive (Manifest [(''b'', ''x'', 1)]) [(''a.full'', ''new'')])
          (mount [''game''] [([''a''], File ''old'')]))
        = Inl (ValidationFailed [''Missing file: b''])"
    by code_simp
  show "fst (apply_patch sample_caps never [''game'']
          (Archive (Manifest [(''b'', ''x'', 1)]) [(''a.full'', ''new'')])
          (mount [''game''] [([''a''], File ''old'')])) [''game'', ''a''] = Some (File ''old'')"
    by code_simp
qed

section \<open>A path that two entries address\<close>

text \<open>
  C3 at a package with two entries for the same path and a third that fails: the file
  \<open>a\<close> holds \<open>orig\<close> before the run; the first entry writes \<open>X\<close>, the second
  takes the backup of \<open>a\<close> again and deletes it, the third finds no original to patch.
  The rollback leaves \<open>X\<close> in \<open>a\<close>, not the content from before the run.
\<close>

theorem rollback_restores_second_backup:
  "mount [''game''] [([''a''], File ''orig'')] [''game'', ''a''] = Some (File ''orig'')
   \<and> snd (apply_patch sample_caps never [''game'']
          (Archive (Manifest []) [(''a.full'', ''X''), (''a.delete'', ''DELETE''), (''zz.patch'', ''d'')])
          (mount [''game''] [([''a''], File ''orig'')]))
        = Inl (OriginalNotFound [''game'', ''zz''])
   \<and> fst (apply_patch sample_caps never [''game'']
          (Archive (Manifest []) [(''a.full'', ''X''), (''a.delete'', ''DELETE''), (''zz.patch'', ''d'')])
          (mount [''game''] [([''a''], File ''orig'')])) [''game'', ''a''] = Some (File ''X'')"
  by code_simp

section \<open>Deletion entries\<close>

lemma mkdir_all_exist:
  "list_all (\<lambda>q. node_at f q = Some Dir) (ancestors d) \<Longrightarrow> mkdir f d = Inr f"
proof -
  assume a: "list_all (\<lambda>q. node_at f q = Some Dir) (ancestors d)"
  then have "find (is_file f) (ancestors d) = None"
    by (auto simp: find_None_iff list_all_iff is_file_def)
  moreover have "(\<lambda>q. if q \<in> set (ancestors d) \<and> node_at f q = None then Some Dir else f q) = f"
    using a by (auto simp: list_all_iff fun_eq_iff)
  ultimately show ?thesis by (simp add: mkdir_def)
qed

lemma is_file_node_at: "is_file f p \<longleftrightarrow> (\<exists>c. node_at f p = Some (File c))"
  by (auto simp: is_file_def split: option.splits node.splits)

lemma node_at_remove: "node_at f p = Some (File c) \<Longrightarrow> node_at (f(p := None)) p = None"
  by (auto simp: node_at_def split: if_splits)

lemma not_own_ancestor:
  assumes "node_at f t \<noteq> Some Dir"
  shows "t \<notin> set (ancestors (parent t))"
proof
  assume a: "t \<in> set (ancestors (parent t))"
  from assms have p: "parent t = butlast t" "t \<noteq> []"
    by (auto simp: node_at_def parent_def split: if_splits)
  from a have "prefix t (butlast t)" by (simp add: ancestors_iff p)
  then have "length t \<le> length (butlast t)" by (rule prefix_length_le)
  with p(2) show False by (cases t rule: rev_cases) auto
qed

lemma mkdir_target:
  assumes "mkdir f (parent t) = Inr f1" "node_at f t \<noteq> Some Dir"
  shows "node_at f1 t = node_at f t"
proof -
  have "f1 t = f t"
    using mkdir_Inr[OF assms(1)] not_own_ancestor[OF assms(2)] by simp
  then show ?thesis by (simp add: node_at_def)
qed

lemma apply_entry_delete_absent:
  assumes "splitext patch_name = (rel_path_safe, ''.delete'')"
    and "mkdir (tree s) (parent (joinpath game_dir (rel_path_of rel_path_safe))) = Inr f1"
    and "node_at f1 (joinpath game_dir (rel_path_of rel_path_safe)) = None"
  shows "apply_entry X game_dir s (patch_name, content) = (\<lparr>tree = f1, rollback_dir = rollback_dir s\<rparr>, None)"
  using assms by (simp add: apply_entry_def dispatch_def)

lemma apply_entry_delete_file:
  assumes "splitext patch_name = (rel_path_safe, ''.delete'')"
    and "mkdir (tree s) (parent (joinpath game_dir (rel_path_of rel_path_safe))) = Inr f1"
    and "node_at f1 (joinpath game_dir (rel_path_of rel_path_safe)) = Some (File c)"
    and "apply_entry X game_dir s (patch_name, content) = (s', None)"
  shows "tree s' = f1(joinpath game_dir (rel_path_of rel_path_safe) := None)"
  using assms by (auto simp: apply_entry_def dispatch_def Let_def split: sum.splits)

text \<open>
  C9, as the code has it: a deletion entry removes the target when it is a regular file (its
  backup is taken first). When the target is absent, no file is created, changed or
  removed and nothing is backed up, but line 201 has already created the directories above
  the target that were missing; the tree is left as it was when they all exist.
\<close>

theorem deletion_entry:
  assumes "splitext patch_name = (rel_path_safe, ''.delete'')"
    and "target_file = joinpath game_dir (rel_path_of rel_path_safe)"
    and "apply_entry X game_dir s (patch_name, content) = (s', r)"
  shows "(is_file (tree s) target_file \<and> r = None \<longrightarrow> node_at (tree s') target_file = None)
       \<and> (node_at (tree s) target_file = None \<longrightarrow>
            rollback_dir s' = rollback_dir s
            \<and> (\<forall>p. tree s' p = tree s p
                   \<or> (tree s p = None \<and> tree s' p = Some Dir
                       \<and> p \<in> set (ancestors (parent target_file)))))
       \<and> (node_at (tree s) target_file = None
            \<and> list_all (\<lambda>q. node_at (tree s) q = Some Dir) (ancestors (parent target_file))
           \<longrightarrow> s' = s \<and> r = None)"
proof (cases "mkdir (tree s) (parent target_file)")
  case (Inl e)
  then have "s' = s" "r = Some e"
    using assms by (simp_all add: apply_entry_def Let_def)
  moreover have "\<not> list_all (\<lambda>q. node_at (tree s) q = Some Dir) (ancestors (parent target_file))"
    using Inl mkdir_all_exist[of "tree s" "parent target_file"] by auto
  ultimately show ?thesis by simp
next
  case (Inr f1)
  note mk = Inr[unfolded assms(2)]
  show ?thesis
  proof (cases "node_at (tree s) target_file")
    case None
    then have "node_at f1 target_file = None"
      using mkdir_target[OF Inr] by simp
    from apply_entry_delete_absent[OF assms(1) mk this[unfolded assms(2)], of X content]
    have s': "s' = \<lparr>tree = f1, rollback_dir = rollback_dir s\<rparr>" and r: "r = None"
      using assms(3) by simp_all
    have ch: "\<forall>p. tree s' p = tree s p
                   \<or> (tree s p = None \<and> tree s' p = Some Dir
                       \<and> p \<in> set (ancestors (parent target_file)))"
      using mkdir_changes[OF Inr] s' by auto
    have "list_all (\<lambda>q. node_at (tree s) q = Some Dir) (ancestors (parent target_file)) \<longrightarrow> s' = s"
      using mkdir_all_exist[of "tree s" "parent target_file"] Inr s' by auto
    then show ?thesis using None s' r ch by (simp add: is_file_def)
  next
    case (Some n)
    have "is_file (tree s) target_file \<and> r = None \<longrightarrow> node_at (tree s') target_file = None"
    proof
      assume a: "is_file (tree s) target_file \<and> r = None"
      then obtain c where c: "node_at (tree s) target_file = Some (File c)"
        by (auto simp: is_file_node_at)
      then have c1: "node_at f1 target_file = Some (File c)"
        using mkdir_target[OF Inr] by simp
      from apply_entry_delete_file[OF assms(1) mk c1[unfolded assms(2)], of X content s'] a assms(3)
      have "tree s' = f1(target_file := None)" by (simp add: assms(2))
      then show "node_at (tree s') target_file = None"
        using node_at_remove[OF c1] by simp
    qed
    then show ?thesis using Some by simp
  qed
qed


theorem deletion_entry_witness:
  "splitext ''a.delete'' = (''a'', ''.delete'')
   \<and> is_file (mount [''game''] [([''a''], File ''x'')]) (joinpath [''game''] (rel_path_of ''a''))
   \<and> snd (apply_entry sample_caps [''game'']
          \<lparr>tree = mount [''game''] [([''a''], File ''x'')], rollback_dir = []\<rparr>
          (''a.delete'', ''DELETE'')) = None
   \<and> node_at (tree (fst (apply_entry sample_caps [''game'']
          \<lparr>tree = mount [''game''] [([''a''], File ''x'')], rollback_dir = []\<rparr>
          (''a.delete'', ''DELETE'')))) (joinpath [''game''] (rel_path_of ''a'')) = None
   \<and> splitext ''b.delete'' = (''b'', ''.delete'')
   \<and> node_at (mount [''game''] [([''a''], File ''x'')]) (joinpath [''game''] (rel_path_of ''b'')) = None
   \<and> list_all (\<lambda>q. node_at (mount [''game''] [([''a''], File ''x'')]) q = Some Dir)
        (ancestors (parent (joinpath [''game''] (rel_path_of ''b''))))
   \<and> fst (apply_entry sample_caps [''game'']
          \<lparr>tree = mount [''game''] [([''a''], File ''x'')], rollback_dir = []\<rparr>
          (''b.delete'', ''DELETE''))
        = \<lparr>tree = mount [''game''] [([''a''], File ''x'')], rollback_dir = []\<rparr>"
proof -
  let ?s = "\<lparr>tree = mount [''game''] [([''a''], File ''x'')], rollback_dir = []\<rparr>"
  have a1: "splitext ''a.delete'' = (''a'', ''.delete'')" by code_simp
  have a2: "is_file (tree ?s) (joinpath [''game''] (rel_path_of ''a''))" by code_simp
  have a3: "snd (apply_entry sample_caps [''game''] ?s (''a.delete'', ''DELETE'')) = None" by code_simp
  have b1: "splitext ''b.delete'' = (''b'', ''.delete'')" by code_simp
  have b2: "node_at (tree ?s) (joinpath [''game''] (rel_path_of ''b'')) = None" by code_simp
  have b3: "list_all (\<lambda>q. node_at (tree ?s) q = Some Dir)
              (ancestors (parent (joinpath [''game''] (rel_path_of ''b''))))" by code_simp
  show ?thesis
    using deletion_entry[where game_dir = "[''game'']" and X = sample_caps and s = ?s
          and content = "''DELETE''", OF a1 refl surjective_pairing]
      deletion_entry[where game_dir = "[''game'']" and X = sample_caps and s = ?s
          and content = "''DELETE''", OF b1 refl surjective_pairing]
      a1 a2 a3 b1 b2 b3
    by simp
qed

text \<open>
  C9 as stated fails: the target \<open>a/b\<close> of the deletion entry \<open>a__b.delete\<close> is
  absent, and so is the directory \<open>a\<close>; applying the entry creates the directory.
\<close>

theorem deletion_entry_creates_directory:
  "node_at (mount [''game''] []) (joinpath [''game''] (rel_path_of ''a__b'')) = None
   \<and> mount [''game''] [] [''game'', ''a''] = None
   \<and> snd (apply_entry sample_caps [''game''] \<lparr>tree = mount [''game''] [], rollback_dir = []\<rparr>
          (''a__b.delete'', ''DELETE'')) = None
   \<and> tree (fst (apply_entry sample_caps [''game''] \<lparr>tree = mount [''game''] [], rollback_dir = []\<rparr>
          (''a__b.delete'', ''DELETE''))) [''game'', ''a''] = Some Dir"
  by code_simp

section \<open>Paths outside the target root\<close>

lemma only_inside_refl: "only_inside g f f"
  by (simp add: only_inside_def)

lemma only_inside_trans:
  "only_inside g f f1 \<Longrightarrow> only_inside g f1 f2 \<Longrightarrow> only_inside g f f2"
  unfolding only_inside_def
proof (intro allI)
  fix p
  assume a: "\<forall>p. f1 p = f p \<or> inside g p \<or> (f p = None \<and> f1 p = Some Dir \<and> p \<in> set (ancestors g))"
    and b: "\<forall>p. f2 p = f1 p \<or> inside g p \<or> (f1 p = None \<and> f2 p = Some Dir \<and> p \<in> set (ancestors g))"
  from a have "f1 p = f p \<or> inside g p \<or> (f p = None \<and> f1 p = Some Dir \<and> p \<in> set (ancestors g))" ..
  moreover from b have "f2 p = f1 p \<or> inside g p \<or> (f1 p = None \<and> f2 p = Some Dir \<and> p \<in> set (ancestors g))" ..
  ultimately show "f2 p = f p \<or> inside g p \<or> (f p = None \<and> f2 p = Some Dir \<and> p \<in> set (ancestors g))"
    by auto
qed

lemma inside_append: "q \<noteq> [] \<Longrightarrow> ''..'' \<notin> set q \<Longrightarrow> inside g (g @ q)"
  by (simp add: inside_def strict_prefix_def)

lemma prefix_of_target:
  assumes "p \<noteq> []" "prefix p (g @ q)" "''..'' \<notin> set q"
  shows "p \<in> set (ancestors g) \<or> inside g p"
proof (cases "prefix p g")
  case True
  then show ?thesis using assms(1) by (simp add: ancestors_iff)
next
  case False
  with assms(2) obtain q' where q': "p = g @ q'" "prefix q' q" "q' \<noteq> []"
    by (auto simp: prefix_append)
  then have "set q' \<subseteq> set q" by (auto simp: prefix_def)
  then show ?thesis using q' assms(3) by (auto intro!: inside_append)
qed

lemma ancestors_parent: "p \<in> set (ancestors (parent t)) \<Longrightarrow> p \<noteq> [] \<and> prefix p t"
  by (auto simp: ancestors_iff parent_def prefix_order.trans[OF _ prefixeq_butlast] split: if_splits)

lemma mkdir_only_inside:
  assumes "mkdir f (parent (g @ q)) = Inr f1" "''..'' \<notin> set q"
  shows "only_inside g f f1"
  unfolding only_inside_def
proof
  fix p
  show "f1 p = f p \<or> inside g p \<or> (f p = None \<and> f1 p = Some Dir \<and> p \<in> set (ancestors g))"
  proof (cases "f1 p = f p")
    case False
    from mkdir_changes[OF assms(1) False]
    have c: "f p = None" "f1 p = Some Dir" "p \<in> set (ancestors (parent (g @ q)))" by simp_all
    from ancestors_parent[OF c(3)] prefix_of_target[of p g q] assms(2)
    have "p \<in> set (ancestors g) \<or> inside g p" by simp
    then show ?thesis using c by auto
  qed simp
qed

lemma tmp_new_inside:
  assumes "q \<noteq> []" "''..'' \<notin> set q"
  shows "inside g (tmp_new (g @ q))"
proof (cases "length (g @ q) = 1 \<and> is_root (hd (g @ q))")
  case True
  then have "g = []" using assms(1) by (cases g) auto
  then show ?thesis using True assms
    by (cases q) (auto simp: tmp_new_def inside_def)
next
  case False
  have "last q @ ''.tmp'' \<noteq> ''..''"
  proof
    assume "last q @ ''.tmp'' = ''..''"
    then have "length (last q @ ''.tmp'') = 2" by simp
    then show False by simp
  qed
  moreover have "set (butlast q) \<subseteq> set q" by (auto dest: in_set_butlastD)
  moreover have "tmp_new (g @ q) = g @ (butlast q @ [last q @ ''.tmp''])"
    using False assms(1) by (auto simp: tmp_new_def butlast_append)
  ultimately show ?thesis using assms(2)
    by (auto intro!: inside_append)
qed

lemma upd_only_inside: "inside g p \<Longrightarrow> only_inside g f (f(p := v))"
  by (simp add: only_inside_def)

lemma dispatch_cases:
  assumes "dispatch X ext patch_name t content f = (f', r)"
  shows "f' = f \<or> (\<exists>v. f' = f(tmp_new t := v)) \<or> (\<exists>v. f' = (f(tmp_new t := None))(t := v))
       \<or> (\<exists>v. f' = f(t @ [patch_name] := v)) \<or> (\<exists>v. f' = f(t := v))"
proof (cases "ext = ''.patch''")
  case True
  then show ?thesis using assms
    by (simp add: dispatch_def split: option.splits node.splits patch_result.splits) blast+
next
  case np: False
  show ?thesis
  proof (cases "ext = ''.full''")
    case True
    then show ?thesis using assms np
      by (simp add: dispatch_def split: option.splits node.splits) blast+
  next
    case False
    then show ?thesis using assms np
      by (simp add: dispatch_def split: option.splits node.splits if_splits) blast+
  qed
qed

lemma dispatch_only_inside:
  assumes "dispatch X ext patch_name (g @ q) content f = (f', r)"
    and "q \<noteq> []" "''..'' \<notin> set q" "patch_name \<noteq> ''..''"
  shows "only_inside g f f'"
proof -
  have t: "inside g (g @ q)" using assms(2,3) by (rule inside_append)
  have u: "inside g (tmp_new (g @ q))" using assms(2,3) by (rule tmp_new_inside)
  have v: "inside g ((g @ q) @ [patch_name])"
    using assms(2,3,4) inside_append[of "q @ [patch_name]" g] by simp
  have w: "only_inside g f ((f(tmp_new (g @ q) := None))(g @ q := x))" for x
    by (rule only_inside_trans[OF upd_only_inside[OF u] upd_only_inside[OF t]])
  from dispatch_cases[OF assms(1)] show ?thesis
  proof (elim disjE exE)
    assume "f' = f" then show ?thesis by (simp add: only_inside_refl)
  next
    fix x assume "f' = f(tmp_new (g @ q) := x)" then show ?thesis using upd_only_inside[OF u] by simp
  next
    fix x assume "f' = (f(tmp_new (g @ q) := None))(g @ q := x)" then show ?thesis using w by simp
  next
    fix x assume "f' = f((g @ q) @ [patch_name] := x)" then show ?thesis using upd_only_inside[OF v] by simp
  next
    fix x assume "f' = f(g @ q := x)" then show ?thesis using upd_only_inside[OF t] by simp
  qed
qed

lemma keys_plain_update:
  "keys_plain (AList.update kk c rb) \<longleftrightarrow> (kk \<noteq> [] \<and> ''..'' \<notin> set kk) \<and> keys_plain rb"
  unfolding keys_plain_def by (simp add: dom_update)

lemma backup_keys_plain:
  assumes "backup rb rel (g @ q) n = Inr rb'" "path_parts rel = q" "q \<noteq> []" "''..'' \<notin> set q"
    "keys_plain rb"
  shows "keys_plain rb'"
proof -
  from assms(1) obtain kk c where rb': "rb' = AList.update kk c rb"
    and kk: "kk = path_parts rel \<or> (backup_is_dir rb (path_parts rel) \<and> kk = path_parts rel @ [last (g @ q)])"
    by (rule backup_Inr)
  have "last q \<noteq> ''..''" using assms(3,4) by (metis last_in_set)
  then have "kk \<noteq> [] \<and> ''..'' \<notin> set kk"
    using kk assms(2,3,4) by auto
  then show ?thesis using assms(5) unfolding rb' by (simp add: keys_plain_update)
qed

lemma plain_name_not_dots: "plain_name patch_name \<Longrightarrow> patch_name \<noteq> ''..''"
proof
  assume a: "plain_name patch_name" "patch_name = ''..''"
  have "path_parts (rel_path_of (fst (splitext ''..''))) = [''..'']" by code_simp
  with a show False by (simp add: plain_name_def Let_def)
qed

lemma apply_entry_only_inside:
  assumes "plain_name (fst e)" "keys_plain (rollback_dir s)"
  shows "only_inside g (tree s) (tree (fst (apply_entry X g s e)))
       \<and> keys_plain (rollback_dir (fst (apply_entry X g s e)))"
proof -
  obtain stem ext where se: "splitext (fst e) = (stem, ext)" by (cases "splitext (fst e)")
  define q where "q = path_parts (rel_path_of stem)"
  have q: "q \<noteq> []" "\<not> is_absolute q" "''..'' \<notin> set q"
    using assms(1) se by (simp_all add: plain_name_def q_def Let_def)
  have t: "joinpath g (rel_path_of stem) = g @ q"
    using q(2) by (simp add: joinpath_def q_def)
  show ?thesis
  proof (cases "mkdir (tree s) (parent (g @ q))")
    case (Inl err)
    then show ?thesis using se t assms(2)
      by (simp add: apply_entry_def only_inside_refl)
  next
    case (Inr f1)
    have m: "only_inside g (tree s) f1" using Inr q(3) by (rule mkdir_only_inside)
    show ?thesis
    proof (cases "case node_at f1 (g @ q) of None \<Rightarrow> Inr (rollback_dir s)
                   | Some n \<Rightarrow> backup (rollback_dir s) (rel_path_of stem) (g @ q) n")
      case (Inl err)
      then show ?thesis using se t Inr m assms(2)
        by (simp add: apply_entry_def)
    next
      case rb: (Inr rb)
      have k: "keys_plain rb"
      proof (cases "node_at f1 (g @ q)")
        case None
        then show ?thesis using rb assms(2) by simp
      next
        case (Some n)
        then have "backup (rollback_dir s) (rel_path_of stem) (g @ q) n = Inr rb" using rb by simp
        then show ?thesis using q assms(2) by (intro backup_keys_plain[where rb' = rb]) (auto simp: q_def)
      qed
      obtain f2 r where d: "dispatch X ext (fst e) (g @ q) (snd e) f1 = (f2, r)"
        by (cases "dispatch X ext (fst e) (g @ q) (snd e) f1")
      have "only_inside g f1 f2"
        using d q(1,3) plain_name_not_dots[OF assms(1)] by (rule dispatch_only_inside)
      with m have "only_inside g (tree s) f2" by (rule only_inside_trans)
      then show ?thesis using se t Inr rb d k
        by (simp add: apply_entry_def)
    qed
  qed
qed

lemma apply_entries_only_inside:
  assumes "list_all (\<lambda>e. plain_name (fst e)) es" "keys_plain (rollback_dir s)"
  shows "only_inside g (tree s) (tree (fst (apply_entries X cancelled g i es s)))
       \<and> keys_plain (rollback_dir (fst (apply_entries X cancelled g i es s)))"
  using assms
proof (induction es arbitrary: i s)
  case Nil
  then show ?case by (simp add: only_inside_refl)
next
  case (Cons e es)
  obtain s' r where a: "apply_entry X g s e = (s', r)" by (cases "apply_entry X g s e")
  have e: "plain_name (fst e)" and es: "list_all (\<lambda>e. plain_name (fst e)) es"
    using Cons.prems(1) by simp_all
  from apply_entry_only_inside[OF e Cons.prems(2), of g X] a
  have s': "only_inside g (tree s) (tree s')" "keys_plain (rollback_dir s')" by simp_all
  from Cons.IH[OF es s'(2), of "Suc i"]
  have ih: "only_inside g (tree s') (tree (fst (apply_entries X cancelled g (Suc i) es s')))"
    and k: "keys_plain (rollback_dir (fst (apply_entries X cancelled g (Suc i) es s')))"
    by simp_all
  from s'(1) ih have tr: "only_inside g (tree s) (tree (fst (apply_entries X cancelled g (Suc i) es s')))"
    by (rule only_inside_trans)
  show ?case
  proof (cases "cancelled i")
    case True
    then show ?thesis using Cons.prems(2) by (simp add: only_inside_refl)
  next
    case False
    show ?thesis
    proof (cases r)
      case None
      then show ?thesis using False a tr k by simp
    next
      case (Some err)
      then show ?thesis using False a s' by simp
    qed
  qed
qed

lemma restore_file_only_inside:
  assumes "restore_file g k c f = Inr f'" "k \<noteq> []" "''..'' \<notin> set k"
  shows "only_inside g f f'"
proof -
  from assms(1) obtain f1 q where f1: "mkdir f (parent (g @ k)) = Inr f1"
    and f': "f' = f1(q \<mapsto> File c)"
    and qq: "q = g @ k \<or> (node_at f1 (g @ k) = Some Dir \<and> q = g @ k @ [last k])"
    by (rule restore_file_Inr)
  have "only_inside g f f1" using f1 assms(3) by (rule mkdir_only_inside)
  moreover have "last k \<noteq> ''..''"
    using assms(2,3) by (metis last_in_set)
  then have "inside g q"
    using qq assms(2,3) inside_append[of k g] inside_append[of "k @ [last k]" g]
    by auto
  then have "only_inside g f1 f'" unfolding f' by (rule upd_only_inside)
  ultimately show ?thesis by (rule only_inside_trans)
qed

lemma restore_only_inside:
  "keys_plain rb \<Longrightarrow> only_inside g f (fst (restore g rb f))"
proof (induction rb arbitrary: f)
  case Nil
  then show ?case by (simp add: only_inside_refl)
next
  case (Cons b rb)
  obtain k c where b: "b = (k, c)" by (cases b)
  have k: "k \<noteq> []" "''..'' \<notin> set k" and rest: "keys_plain rb"
    using Cons.prems b by (auto simp: keys_plain_def)
  show ?case
  proof (cases "restore_file g k c f")
    case (Inl e)
    then show ?thesis using b by (simp add: only_inside_refl)
  next
    case (Inr f')
    have "only_inside g f f'" using Inr k by (rule restore_file_only_inside)
    moreover have "only_inside g f' (fst (restore g rb f'))" using rest by (rule Cons.IH)
    ultimately have "only_inside g f (fst (restore g rb f'))" by (rule only_inside_trans)
    then show ?thesis using Inr b by simp
  qed
qed

lemma keys_plain_Nil: "keys_plain []"
  by (simp add: keys_plain_def)

lemma apply_try_only_inside:
  assumes "list_all (\<lambda>e. plain_name (fst e)) files"
  shows "only_inside g f (tree (fst (apply_try X cancelled g (Archive mf files) f)))
       \<and> keys_plain (rollback_dir (fst (apply_try X cancelled g (Archive mf files) f)))"
proof (cases mf)
  case (Manifest m)
  let ?s0 = "\<lparr>tree = f, rollback_dir = []\<rparr>"
  let ?es = "filter (\<lambda>p. fst p \<noteq> ''manifest.json'') files"
  have "list_all (\<lambda>e. plain_name (fst e)) ?es"
    using assms by (simp add: list_all_iff)
  from apply_entries_only_inside[OF this, of ?s0 g X cancelled 0]
  show ?thesis using Manifest
    by (auto simp: apply_try_def Let_def keys_plain_Nil split: prod.splits option.splits sum.splits)
qed (simp_all add: apply_try_def only_inside_refl keys_plain_Nil)

text \<open>
  C4, as the code has it: \<open>apply_patch\<close> does not check the names of the patch files.
  For a package whose names all read as relative paths with at least one component and
  without \<open>''..''\<close>, every path that the run creates, overwrites or deletes lies inside
  the target root; beside that, the run only creates the root directory and the
  directories above it where they were missing.
\<close>

theorem apply_patch_stays_inside:
  assumes "list_all (\<lambda>e. plain_name (fst e)) files"
  shows "only_inside game_dir f (fst (apply_patch X cancelled game_dir (Archive mf files) f))"
proof -
  obtain s r where t: "apply_try X cancelled game_dir (Archive mf files) f = (s, r)"
    by (cases "apply_try X cancelled game_dir (Archive mf files) f")
  from apply_try_only_inside[OF assms, of game_dir f X cancelled mf] t
  have s: "only_inside game_dir f (tree s)" "keys_plain (rollback_dir s)" by simp_all
  have "only_inside game_dir (tree s) (fst (restore game_dir (rollback_dir s) (tree s)))"
    using s(2) by (rule restore_only_inside)
  with s(1) have "only_inside game_dir f (fst (restore game_dir (rollback_dir s) (tree s)))"
    by (rule only_inside_trans)
  then show ?thesis using t s(1)
    by (auto simp: apply_patch_def split: option.splits prod.splits)
qed

theorem apply_patch_stays_inside_witness:
  "list_all (\<lambda>e. plain_name (fst e)) [(''a__b.full'', ''X''), (''c.delete'', ''DELETE'')]
   \<and> only_inside [''game''] (mount [''game''] [([''c''], File ''y'')])
        (fst (apply_patch sample_caps never [''game'']
           (Archive (Manifest []) [(''a__b.full'', ''X''), (''c.delete'', ''DELETE'')])
           (mount [''game''] [([''c''], File ''y'')])))
   \<and> inside [''game''] [''game'', ''a'', ''b'']"
proof -
  have a: "list_all (\<lambda>e. plain_name (fst e)) [(''a__b.full'', ''X''), (''c.delete'', ''DELETE'')]"
    by code_simp
  have b: "inside [''game''] [''game'', ''a'', ''b'']"
    by code_simp
  show ?thesis
    using apply_patch_stays_inside[OF a] a b by simp
qed

text \<open>
  C4 as stated fails: the name \<open>__x.full\<close> reads as the absolute path \<open>/x\<close>, and the
  run writes that file, outside the root \<open>game\<close>.
\<close>

theorem apply_patch_writes_outside_root:
  "joinpath [''game''] (rel_path_of (fst (splitext ''__x.full''))) = [''/'', ''x'']
   \<and> \<not> inside [''game''] [''/'', ''x'']
   \<and> mount [''game''] [] [''/'', ''x''] = None
   \<and> snd (apply_patch sample_caps never [''game''] (Archive (Manifest []) [(''__x.full'', ''X'')])
          (mount [''game''] [])) = Inr ()
   \<and> fst (apply_patch sample_caps never [''game''] (Archive (Manifest []) [(''__x.full'', ''X'')])
          (mount [''game''] [])) [''/'', ''x''] = Some (File ''X'')"
  by code_simp

section \<open>The manifest\<close>

lemma rglob_files_Cons:
  "rglob_files ((p, n) # t) = (case n of File c \<Rightarrow> [(p, c)] | Dir \<Rightarrow> []) @ rglob_files t"
  by (simp add: rglob_files_def List.map_filter_def split: node.splits)

lemma rglob_files_Nil: "rglob_files [] = []"
  by (simp add: rglob_files_def List.map_filter_def)

lemma rglob_files_set: "(p, c) \<in> set (rglob_files t) \<longleftrightarrow> (p, File c) \<in> set t"
  by (induction t) (auto simp: rglob_files_Cons rglob_files_Nil split: node.splits)

lemma rglob_files_keys: "fst ` set (rglob_files t) \<subseteq> fst ` set t"
  by (force simp: rglob_files_set)

lemma rglob_files_distinct: "distinct (map fst t) \<Longrightarrow> distinct (map fst (rglob_files t))"
proof (induction t)
  case Nil
  then show ?case by (simp add: rglob_files_Nil)
next
  case (Cons a t)
  obtain p n where a: "a = (p, n)" by (cases a)
  have "p \<notin> fst ` set (rglob_files t)"
    using Cons.prems a rglob_files_keys[of t] by auto
  then show ?case using Cons a
    by (auto simp: rglob_files_Cons split: node.splits)
qed

lemma new_file_step_manifest:
  "new_file_step X old st file = Inr st' \<Longrightarrow>
   manifest_of st' = AList.update (fst (record_of X file)) (snd (record_of X file)) (manifest_of st)"
  by (auto simp: new_file_step_def record_of_def Let_def split: option.splits node.splits if_splits)

lemma new_files_loop_manifest:
  "new_files_loop X cancelled old i files st = Inr st' \<Longrightarrow>
   manifest_of st' = fold (\<lambda>file. AList.update (fst (record_of X file)) (snd (record_of X file))) files (manifest_of st)"
proof (induction files arbitrary: i st)
  case Nil
  then show ?case by simp
next
  case (Cons a files)
  then show ?case
    by (auto split: if_splits sum.splits dest: new_file_step_manifest)
qed

lemma old_files_loop_manifest:
  "old_files_loop cancelled new i files st = Inr st' \<Longrightarrow> manifest_of st' = manifest_of st"
  by (induction files arbitrary: i st) (auto simp: old_file_step_def Let_def split: if_splits)

lemma fold_update_distinct:
  "distinct (map fst m) \<Longrightarrow> distinct (map fst (fold (\<lambda>r. AList.update (fst (g r)) (snd (g r))) rs m))"
  by (induction rs arbitrary: m) (auto simp: distinct_update)

lemma fold_update_other:
  "k \<notin> (\<lambda>r. fst (g r)) ` set rs \<Longrightarrow>
   map_of (fold (\<lambda>r. AList.update (fst (g r)) (snd (g r))) rs m) k = map_of m k"
  by (induction rs arbitrary: m) (auto simp: update_conv')

lemma fold_update_last:
  assumes "r \<in> set rs" "\<forall>r' \<in> set rs. fst (g r') = fst (g r) \<longrightarrow> r' = r"
  shows "map_of (fold (\<lambda>r. AList.update (fst (g r)) (snd (g r))) rs m) (fst (g r)) = Some (snd (g r))"
  using assms
proof (induction rs arbitrary: m)
  case Nil
  then show ?case by simp
next
  case (Cons a rs)
  show ?case
  proof (cases "r \<in> set rs")
    case True
    then show ?thesis using Cons by auto
  next
    case False
    then have a: "a = r" using Cons.prems(1) by simp
    have "fst (g r) \<notin> (\<lambda>r. fst (g r)) ` set rs"
      using Cons.prems(2) False by auto
    from fold_update_other[OF this] show ?thesis using a by (simp add: update_conv')
  qed
qed

lemma filter_key_single:
  "distinct (map fst al) \<Longrightarrow> map_of al k = Some v \<Longrightarrow> filter (\<lambda>r. fst r = k) al = [(k, v)]"
proof (induction al)
  case Nil
  then show ?case by simp
next
  case (Cons a al)
  show ?case
  proof (cases "fst a = k")
    case True
    have "filter (\<lambda>r. fst r = k) al = []"
      using Cons.prems(1) True by (auto simp: filter_empty_conv image_iff)
    then show ?thesis using True Cons.prems(2) by (cases a) auto
  next
    case False
    then show ?thesis using Cons by (cases a) auto
  qed
qed

lemma as_posix_inj: "rel_ok p \<Longrightarrow> rel_ok q \<Longrightarrow> as_posix p = as_posix q \<Longrightarrow> p = q"
  by (metis path_parts_as_posix)

lemma collect_manifest:
  assumes "collect X cancelled old new = Inr st"
  shows "manifest_of st = fold (\<lambda>file. AList.update (fst (record_of X file)) (snd (record_of X file))) (rglob_files new) []"
  using assms
  by (auto simp: collect_def Let_def split: sum.splits
      dest!: new_files_loop_manifest old_files_loop_manifest)

text \<open>
  C8: for a well-formed new tree, the manifest of a package that \<open>create_patch\<close> has
  written holds exactly one record for every file path of the new tree, with the digest of
  the file's content and its length in bytes.
\<close>

theorem manifest_complete:
  assumes "tree_ok new"
    and "create_patch X cancelled write_fails old new patch_package
           = (Some (Complete (Archive (Manifest m) files)), Inr ())"
    and "(p, File c) \<in> set new"
  shows "filter (\<lambda>r. fst r = as_posix p) m = [(as_posix p, sha256sum X c, length c)]"
proof -
  from assms(2) obtain st where st: "collect X cancelled old new = Inr st" and m: "m = manifest_of st"
    by (auto simp: create_patch_def split: sum.splits option.splits)
  let ?g = "record_of X"
  have m': "m = fold (\<lambda>file. AList.update (fst (?g file)) (snd (?g file))) (rglob_files new) []"
    using collect_manifest[OF st] m by simp
  have d: "distinct (map fst m)"
    unfolding m' by (rule fold_update_distinct) simp
  have in_files: "(p, c) \<in> set (rglob_files new)"
    using assms(3) by (simp add: rglob_files_set)
  have uniq: "\<forall>r' \<in> set (rglob_files new). fst (?g r') = fst (?g (p, c)) \<longrightarrow> r' = (p, c)"
  proof (intro ballI impI)
    fix r' assume r': "r' \<in> set (rglob_files new)" and e: "fst (?g r') = fst (?g (p, c))"
    obtain p' c' where pc: "r' = (p', c')" by (cases r')
    have "rel_ok p'" "rel_ok p"
      using assms(1,3) r' pc by (auto simp: tree_ok_def list_all_iff rglob_files_set)
    then have "p' = p" using e pc by (auto simp: record_of_def intro: as_posix_inj)
    moreover have "distinct (map fst new)" using assms(1) by (simp add: tree_ok_def)
    ultimately show "r' = (p, c)"
      using r' pc assms(3) by (auto simp: rglob_files_set dest: eq_key_imp_eq_value)
  qed
  have "map_of m (fst (?g (p, c))) = Some (snd (?g (p, c)))"
    unfolding m' using in_files uniq by (rule fold_update_last)
  then have "map_of m (as_posix p) = Some (sha256sum X c, length c)"
    by (simp add: record_of_def)
  with d show ?thesis by (rule filter_key_single)
qed

theorem manifest_complete_witness:
  "tree_ok [([''a''], Dir), ([''a'', ''b.txt''], File ''hello''), ([''c''], File ''x'')]
   \<and> create_patch sample_caps never None [([''c''], File ''x'')]
         [([''a''], Dir), ([''a'', ''b.txt''], File ''hello''), ([''c''], File ''x'')] None
       = (Some (Complete (Archive (Manifest [(''a/b.txt'', ''hello'', 5), (''c'', ''x'', 1)])
            [(''a__b.txt.full'', ''hello'')])), Inr ())
   \<and> ([''a'', ''b.txt''], File ''hello'')
        \<in> set [([''a''], Dir), ([''a'', ''b.txt''], File ''hello''), ([''c''], File ''x'')]
   \<and> filter (\<lambda>r. fst r = as_posix [''a'', ''b.txt'']) [(''a/b.txt'', ''hello'', 5), (''c'', ''x'', 1)]
       = [(as_posix [''a'', ''b.txt''], sha256sum sample_caps ''hello'', length ''hello'')]"
proof -
  let ?new = "[([''a''], Dir), ([''a'', ''b.txt''], File ''hello''), ([''c''], File ''x'')]"
  have a: "tree_ok ?new" by code_simp
  have b: "create_patch sample_caps never None [([''c''], File ''x'')] ?new None
       = (Some (Complete (Archive (Manifest [(''a/b.txt'', ''hello'', 5), (''c'', ''x'', 1)])
            [(''a__b.txt.full'', ''hello'')])), Inr ())" by code_simp
  have c: "([''a'', ''b.txt''], File ''hello'') \<in> set ?new" by simp
  show ?thesis
    using manifest_complete[OF a b c] a b c by simp
qed

section \<open>Unchanged files\<close>

lemma kinds_mem: "''.patch'' \<in> kinds" "''.full'' \<in> kinds" "''.delete'' \<in> kinds"
  by (simp_all add: kinds_def)

lemma suffix_kind:
  assumes "e \<in> kinds" "e' \<in> kinds" "s @ e = t @ e'"
  shows "s = t"
proof -
  have "last (s @ e) = last (t @ e')" using assms(3) by simp
  then have "e = e'" using assms(1,2) by (auto simp: kinds_def)
  then show ?thesis using assms(3) by simp
qed

lemma entry_names_disjoint:
  assumes "\<not> same_container_name q p"
  shows "entry_names q \<inter> entry_names p = {}"
proof -
  have False if "n \<in> entry_names q" "n \<in> entry_names p" for n
  proof -
    from that obtain e e' where "e \<in> kinds" "e' \<in> kinds"
      "n = patch_name_of (as_posix q) @ e" "n = patch_name_of (as_posix p) @ e'"
      unfolding entry_names_def by (elim imageE) 
    then have "patch_name_of (as_posix q) = patch_name_of (as_posix p)"
      using suffix_kind[of e e' "patch_name_of (as_posix q)" "patch_name_of (as_posix p)"] by simp
    with assms show False by (simp add: same_container_name_def)
  qed
  then show ?thesis by (meson disjoint_iff)
qed

lemma rel_ok_not_absolute: "rel_ok p \<Longrightarrow> \<not> is_absolute p"
  by (cases p) (auto simp: rel_ok_def name_ok_def is_absolute_def is_root_def)

lemma joinpath_as_posix: "rel_ok p \<Longrightarrow> joinpath [] (as_posix p) = p"
  by (simp add: joinpath_def path_parts_as_posix rel_ok_not_absolute)

lemma tree_node_rel: "rel_ok p \<Longrightarrow> tree_node t (joinpath [] (as_posix p)) = map_of t p"
  by (simp add: joinpath_as_posix tree_node_def rel_ok_def)

lemma new_file_step_tmp:
  assumes "new_file_step X old st (q, c) = Inr st'"
  shows "tree_node old (joinpath [] (as_posix q)) = Some (File c) \<and> patch_tmp st' = patch_tmp st
       \<or> tree_node old (joinpath [] (as_posix q)) \<noteq> Some (File c)
         \<and> (\<exists>d. patch_tmp st' = AList.update (patch_name_of (as_posix q) @ ''.patch'') d (patch_tmp st)
                \<or> patch_tmp st' = AList.update (patch_name_of (as_posix q) @ ''.full'') d (patch_tmp st))"
  using assms
  by (auto simp: new_file_step_def Let_def split: option.splits node.splits if_splits)

lemma new_file_step_names:
  assumes "new_file_step X old st (q, c) = Inr st'"
    and "tree_node old (joinpath [] (as_posix q)) = Some (File c) \<or> entry_names q \<subseteq> N"
    and "fst ` set (patch_tmp st) \<subseteq> N"
  shows "fst ` set (patch_tmp st') \<subseteq> N"
proof -
  from new_file_step_tmp[OF assms(1)] show ?thesis
  proof (elim disjE conjE exE)
    assume "patch_tmp st' = patch_tmp st"
    then show ?thesis using assms(3) by simp
  next
    fix d
    assume n: "tree_node old (joinpath [] (as_posix q)) \<noteq> Some (File c)"
      and "patch_tmp st' = AList.update (patch_name_of (as_posix q) @ ''.patch'') d (patch_tmp st)"
    then have "fst ` set (patch_tmp st') = {patch_name_of (as_posix q) @ ''.patch''} \<union> fst ` set (patch_tmp st)"
      by (simp only: dom_update)
    moreover have "patch_name_of (as_posix q) @ ''.patch'' \<in> N"
      using n assms(2) kinds_mem(1) unfolding entry_names_def by (meson image_eqI subsetD)
    ultimately show ?thesis using assms(3) by (simp add: subset_iff)
  next
    fix d
    assume n: "tree_node old (joinpath [] (as_posix q)) \<noteq> Some (File c)"
      and "patch_tmp st' = AList.update (patch_name_of (as_posix q) @ ''.full'') d (patch_tmp st)"
    then have "fst ` set (patch_tmp st') = {patch_name_of (as_posix q) @ ''.full''} \<union> fst ` set (patch_tmp st)"
      by (simp only: dom_update)
    moreover have "patch_name_of (as_posix q) @ ''.full'' \<in> N"
      using n assms(2) kinds_mem(2) unfolding entry_names_def by (meson image_eqI subsetD)
    ultimately show ?thesis using assms(3) by (simp add: subset_iff)
  qed
qed

lemma old_file_step_names:
  assumes "tree_node new (joinpath [] (as_posix q)) \<noteq> None \<or> entry_names q \<subseteq> N"
    and "fst ` set (patch_tmp st) \<subseteq> N"
  shows "fst ` set (patch_tmp (old_file_step new st (q, c))) \<subseteq> N"
proof (cases "tree_node new (joinpath [] (as_posix q)) = None")
  case True
  then have "fst ` set (patch_tmp (old_file_step new st (q, c)))
           = {patch_name_of (as_posix q) @ ''.delete''} \<union> fst ` set (patch_tmp st)"
    by (simp add: old_file_step_def Let_def dom_update del: insert_is_Un)
  moreover have "patch_name_of (as_posix q) @ ''.delete'' \<in> N"
    using True assms(1) kinds_mem(3) unfolding entry_names_def by (meson image_eqI subsetD)
  ultimately show ?thesis using assms(2) by (simp add: subset_iff)
next
  case False
  then have "old_file_step new st (q, c) = st" by (auto simp: old_file_step_def Let_def)
  then show ?thesis using assms(2) by simp
qed

lemma new_files_loop_names:
  assumes "new_files_loop X cancelled old i files st = Inr st'"
    and "\<forall>(q, c) \<in> set files. tree_node old (joinpath [] (as_posix q)) = Some (File c) \<or> entry_names q \<subseteq> N"
    and "fst ` set (patch_tmp st) \<subseteq> N"
  shows "fst ` set (patch_tmp st') \<subseteq> N"
  using assms
proof (induction files arbitrary: i st)
  case Nil
  then show ?case by simp
next
  case (Cons a files)
  obtain q c where a: "a = (q, c)" by (cases a)
  from Cons.prems(1) obtain st1 where s1: "new_file_step X old st (q, c) = Inr st1"
    and rest: "new_files_loop X cancelled old (Suc i) files st1 = Inr st'"
    using a by (auto split: if_splits sum.splits)
  have h: "tree_node old (joinpath [] (as_posix q)) = Some (File c) \<or> entry_names q \<subseteq> N"
    using Cons.prems(2) a by simp
  have t: "\<forall>(q, c) \<in> set files. tree_node old (joinpath [] (as_posix q)) = Some (File c) \<or> entry_names q \<subseteq> N"
    using Cons.prems(2) by simp
  have "fst ` set (patch_tmp st1) \<subseteq> N"
    using s1 h Cons.prems(3) by (rule new_file_step_names)
  with rest t show ?case by (rule Cons.IH)
qed

lemma old_files_loop_names:
  assumes "old_files_loop cancelled new i files st = Inr st'"
    and "\<forall>(q, c) \<in> set files. tree_node new (joinpath [] (as_posix q)) \<noteq> None \<or> entry_names q \<subseteq> N"
    and "fst ` set (patch_tmp st) \<subseteq> N"
  shows "fst ` set (patch_tmp st') \<subseteq> N"
  using assms
proof (induction files arbitrary: i st)
  case Nil
  then show ?case by simp
next
  case (Cons a files)
  obtain q c where a: "a = (q, c)" by (cases a)
  from Cons.prems(1) have rest: "old_files_loop cancelled new (Suc i) files (old_file_step new st (q, c)) = Inr st'"
    using a by (auto split: if_splits)
  have h: "tree_node new (joinpath [] (as_posix q)) \<noteq> None \<or> entry_names q \<subseteq> N"
    using Cons.prems(2) a by simp
  have t: "\<forall>(q, c) \<in> set files. tree_node new (joinpath [] (as_posix q)) \<noteq> None \<or> entry_names q \<subseteq> N"
    using Cons.prems(2) by simp
  have "fst ` set (patch_tmp (old_file_step new st (q, c))) \<subseteq> N"
    using h Cons.prems(3) by (rule old_file_step_names)
  with rest t show ?case by (rule Cons.IH)
qed

text \<open>
  C7, as the code has it: for a path whose file has the same content in both trees, and
  whose container name no other file path of either tree shares, the package holds no
  entry under the names of that path, and the manifest holds its record.
\<close>

theorem unchanged_file_has_no_entry:
  assumes "tree_ok old" and "tree_ok new"
    and "(p, File c) \<in> set old" and "(p, File c) \<in> set new"
    and "list_all (\<lambda>q. q = p \<or> \<not> same_container_name q p)
           (map fst (rglob_files new) @ map fst (rglob_files old))"
    and "create_patch X cancelled write_fails old new patch_package
           = (Some (Complete (Archive (Manifest m) files)), Inr ())"
  shows "fst ` set files \<inter> entry_names p = {}
       \<and> filter (\<lambda>r. fst r = as_posix p) m = [(as_posix p, sha256sum X c, length c)]"
proof
  show "filter (\<lambda>r. fst r = as_posix p) m = [(as_posix p, sha256sum X c, length c)]"
    using assms(2,6,4) by (rule manifest_complete)
next
  from assms(6) obtain st where st: "collect X cancelled old new = Inr st" and f: "files = patch_tmp st"
    by (auto simp: create_patch_def split: sum.splits option.splits)
  define N where "N = - entry_names p"
  from st obtain st1 where l1: "new_files_loop X cancelled old 0 (rglob_files new) \<lparr>manifest_of = [], patch_tmp = []\<rparr> = Inr st1"
    and l2: "old_files_loop cancelled new (length (rglob_files new)) (rglob_files old) st1 = Inr st"
    by (auto simp: collect_def Let_def split: sum.splits)
  have p: "rel_ok p" using assms(2,4) by (auto simp: tree_ok_def list_all_iff)
  have old_p: "map_of old p = Some (File c)" and new_p: "map_of new p = Some (File c)"
    using assms(1,2,3,4) by (auto simp: tree_ok_def)
  have others: "entry_names q \<subseteq> N" if "q \<in> fst ` set (rglob_files new) \<union> fst ` set (rglob_files old)" "q \<noteq> p" for q
  proof -
    have "\<not> same_container_name q p" using assms(5) that by (auto simp: list_all_iff)
    from entry_names_disjoint[OF this] show ?thesis by (auto simp: N_def)
  qed
  have a1: "\<forall>(q, c') \<in> set (rglob_files new). tree_node old (joinpath [] (as_posix q)) = Some (File c') \<or> entry_names q \<subseteq> N"
  proof -
    have "tree_node old (joinpath [] (as_posix q)) = Some (File c') \<or> entry_names q \<subseteq> N"
      if qc: "(q, c') \<in> set (rglob_files new)" for q c'
    proof (cases "q = p")
      case True
      then have "c' = c"
        using qc new_p assms(2) by (auto simp: rglob_files_set tree_ok_def)
      then show ?thesis using True p old_p by (simp add: tree_node_rel)
    next
      case False
      have "q \<in> fst ` set (rglob_files new)" using qc by force
      then show ?thesis using others[of q] False by simp
    qed
    then show ?thesis by blast
  qed
  have a2: "\<forall>(q, c') \<in> set (rglob_files old). tree_node new (joinpath [] (as_posix q)) \<noteq> None \<or> entry_names q \<subseteq> N"
  proof -
    have "tree_node new (joinpath [] (as_posix q)) \<noteq> None \<or> entry_names q \<subseteq> N"
      if qc: "(q, c') \<in> set (rglob_files old)" for q c'
    proof (cases "q = p")
      case True
      then show ?thesis using p new_p by (simp add: tree_node_rel)
    next
      case False
      have "q \<in> fst ` set (rglob_files old)" using qc by force
      then show ?thesis using others[of q] False by simp
    qed
    then show ?thesis by blast
  qed
  have "fst ` set (patch_tmp st1) \<subseteq> N"
    using l1 a1 by (rule new_files_loop_names) simp
  with l2 a2 have "fst ` set (patch_tmp st) \<subseteq> N"
    by (rule old_files_loop_names)
  then show "fst ` set files \<inter> entry_names p = {}"
    unfolding f N_def by blast
qed

theorem unchanged_file_has_no_entry_witness:
  "tree_ok [([''a''], Dir), ([''a'', ''b''], File ''x''), ([''c''], File ''old'')]
   \<and> tree_ok [([''a''], Dir), ([''a'', ''b''], File ''x''), ([''c''], File ''new'')]
   \<and> ([''a'', ''b''], File ''x'') \<in> set [([''a''], Dir), ([''a'', ''b''], File ''x''), ([''c''], File ''old'')]
   \<and> ([''a'', ''b''], File ''x'') \<in> set [([''a''], Dir), ([''a'', ''b''], File ''x''), ([''c''], File ''new'')]
   \<and> create_patch sample_caps never None
         [([''a''], Dir), ([''a'', ''b''], File ''x''), ([''c''], File ''old'')]
         [([''a''], Dir), ([''a'', ''b''], File ''x''), ([''c''], File ''new'')] None
       = (Some (Complete (Archive (Manifest [(''a/b'', ''x'', 1), (''c'', ''new'', 3)])
            [(''c.patch'', ''Dnew'')])), Inr ())
   \<and> fst ` set [(''c.patch'', ''Dnew'')] \<inter> entry_names [''a'', ''b''] = {}
   \<and> filter (\<lambda>r. fst r = as_posix [''a'', ''b'']) [(''a/b'', ''x'', 1), (''c'', ''new'', 3)]
       = [(as_posix [''a'', ''b''], sha256sum sample_caps ''x'', length ''x'')]"
proof -
  let ?old = "[([''a''], Dir), ([''a'', ''b''], File ''x''), ([''c''], File ''old'')]"
  let ?new = "[([''a''], Dir), ([''a'', ''b''], File ''x''), ([''c''], File ''new'')]"
  have a: "tree_ok ?old" by code_simp
  have b: "tree_ok ?new" by code_simp
  have c: "([''a'', ''b''], File ''x'') \<in> set ?old" by simp
  have d: "([''a'', ''b''], File ''x'') \<in> set ?new" by simp
  have e: "list_all (\<lambda>q. q = [''a'', ''b''] \<or> \<not> same_container_name q [''a'', ''b''])
             (map fst (rglob_files ?new) @ map fst (rglob_files ?old))" by code_simp
  have f: "create_patch sample_caps never None ?old ?new None
       = (Some (Complete (Archive (Manifest [(''a/b'', ''x'', 1), (''c'', ''new'', 3)])
            [(''c.patch'', ''Dnew'')])), Inr ())" by code_simp
  show ?thesis
    using unchanged_file_has_no_entry[OF a b c d e f] a b c d f by simp
qed

text \<open>
  C7 as stated fails: \<open>a/b\<close> has the same content in both trees, and the new file
  \<open>a__b\<close> of the new tree is stored under the name \<open>a__b.full\<close>, which is the name
  of a full copy of \<open>a/b\<close> and which \<open>apply_patch\<close> reads as the path \<open>a/b\<close>.
\<close>

theorem unchanged_file_gets_entry_of_other_path:
  "tree_ok [([''a''], Dir), ([''a'', ''b''], File ''x'')]
   \<and> tree_ok [([''a''], Dir), ([''a'', ''b''], File ''x''), ([''a__b''], File ''y'')]
   \<and> ([''a'', ''b''], File ''x'') \<in> set [([''a''], Dir), ([''a'', ''b''], File ''x'')]
   \<and> ([''a'', ''b''], File ''x'')
        \<in> set [([''a''], Dir), ([''a'', ''b''], File ''x''), ([''a__b''], File ''y'')]
   \<and> create_patch sample_caps never None
         [([''a''], Dir), ([''a'', ''b''], File ''x'')]
         [([''a''], Dir), ([''a'', ''b''], File ''x''), ([''a__b''], File ''y'')] None
       = (Some (Complete (Archive (Manifest [(''a/b'', ''x'', 1), (''a__b'', ''y'', 1)])
            [(''a__b.full'', ''y'')])), Inr ())
   \<and> patch_name_of (as_posix [''a'', ''b'']) @ ''.full'' = ''a__b.full''
   \<and> splitext ''a__b.full'' = (''a__b'', ''.full'')
   \<and> joinpath [''game''] (rel_path_of ''a__b'') = [''game'', ''a'', ''b'']"
  by code_simp

section \<open>Creating and applying a package\<close>

lemma map_of_put:
  "map_of (put e al) = (case e of None \<Rightarrow> map_of al | Some (k, v) \<Rightarrow> (map_of al)(k \<mapsto> v))"
  by (auto simp: put_def update_conv' split: option.splits)

lemma distinct_put: "distinct (map fst al) \<Longrightarrow> distinct (map fst (put e al))"
  by (auto simp: put_def distinct_update split: option.splits)

lemma fold_put_distinct:
  "distinct (map fst al) \<Longrightarrow> distinct (map fst (fold (\<lambda>x. put (f x)) l al))"
  by (induction l arbitrary: al) (auto simp: distinct_put)

lemma fold_put_sound:
  "map_of (fold (\<lambda>x. put (f x)) l al) k = Some v \<Longrightarrow>
   (\<exists>x \<in> set l. f x = Some (k, v)) \<or> map_of al k = Some v"
proof (induction l arbitrary: al)
  case Nil
  then show ?case by simp
next
  case (Cons a l)
  from Cons.IH[of "put (f a) al"] Cons.prems
  have "(\<exists>x \<in> set l. f x = Some (k, v)) \<or> map_of (put (f a) al) k = Some v" by simp
  then show ?case
    by (auto simp: map_of_put split: option.splits if_splits)
qed

lemma fold_put_keep:
  "map_of al k = Some v \<Longrightarrow> \<forall>y \<in> set l. \<forall>v'. f y = Some (k, v') \<longrightarrow> v' = v \<Longrightarrow>
   map_of (fold (\<lambda>x. put (f x)) l al) k = Some v"
proof (induction l arbitrary: al)
  case Nil
  then show ?case by simp
next
  case (Cons a l)
  have "map_of (put (f a) al) k = Some v"
    using Cons.prems by (auto simp: map_of_put split: option.splits)
  then show ?case using Cons.prems(2) Cons.IH[of "put (f a) al"] by simp
qed

lemma fold_put_complete:
  "x \<in> set l \<Longrightarrow> f x = Some (k, v) \<Longrightarrow> \<forall>y \<in> set l. \<forall>v'. f y = Some (k, v') \<longrightarrow> v' = v \<Longrightarrow>
   map_of (fold (\<lambda>x. put (f x)) l al) k = Some v"
proof (induction l arbitrary: al)
  case Nil
  then show ?case by simp
next
  case (Cons a l)
  have rest: "\<forall>y \<in> set l. \<forall>v'. f y = Some (k, v') \<longrightarrow> v' = v" using Cons.prems(3) by simp
  show ?case
  proof (cases "x \<in> set l")
    case True
    then show ?thesis using Cons.IH[OF True Cons.prems(2) rest] by simp
  next
    case False
    then have "a = x" using Cons.prems(1) by simp
    then have "map_of (put (f a) al) k = Some v"
      using Cons.prems(2) by (simp add: map_of_put)
    then show ?thesis using fold_put_keep[OF _ rest] by simp
  qed
qed

lemma new_file_step_put:
  "new_file_step X old st file = Inr st' \<Longrightarrow>
   patch_tmp st' = put (emit_new X old file) (patch_tmp st)
   \<and> tree_node old (joinpath [] (as_posix (fst file))) \<noteq> Some Dir"
  by (auto simp: new_file_step_def emit_new_def put_def Let_def split: option.splits node.splits if_splits)

lemma new_files_loop_put:
  "new_files_loop X cancelled old i files st = Inr st' \<Longrightarrow>
   patch_tmp st' = fold (\<lambda>x. put (emit_new X old x)) files (patch_tmp st)
   \<and> (\<forall>x \<in> set files. tree_node old (joinpath [] (as_posix (fst x))) \<noteq> Some Dir)"
proof (induction files arbitrary: i st)
  case Nil
  then show ?case by simp
next
  case (Cons a files)
  from Cons.prems obtain st1 where s1: "new_file_step X old st a = Inr st1"
    and rest: "new_files_loop X cancelled old (Suc i) files st1 = Inr st'"
    by (auto split: if_splits sum.splits)
  from new_file_step_put[OF s1] Cons.IH[OF rest] show ?case by simp
qed

lemma old_file_step_put: "patch_tmp (old_file_step new st file) = put (emit_old new file) (patch_tmp st)"
  by (simp add: old_file_step_def emit_old_def put_def Let_def)

lemma old_files_loop_put:
  "old_files_loop cancelled new i files st = Inr st' \<Longrightarrow>
   patch_tmp st' = fold (\<lambda>x. put (emit_old new x)) files (patch_tmp st)"
proof (induction files arbitrary: i st)
  case Nil
  then show ?case by simp
next
  case (Cons a files)
  from Cons.prems have rest: "old_files_loop cancelled new (Suc i) files (old_file_step new st a) = Inr st'"
    by (auto split: if_splits)
  from Cons.IH[OF rest] show ?case by (simp add: old_file_step_put)
qed

lemma rglob_files_map_of:
  "distinct (map fst t) \<Longrightarrow> (p, c) \<in> set (rglob_files t) \<longleftrightarrow> map_of t p = Some (File c)"
  by (simp add: rglob_files_set)

lemma classify_kind: "classify X old new p = Some (ext, content) \<Longrightarrow> ext \<in> kinds"
  by (auto simp: classify_def kinds_def split: option.splits node.splits if_splits)

lemma classify_file:
  assumes "classify X old new p = Some e" "tree_ok old" "tree_ok new"
  shows "p \<in> set (file_paths old new)"
proof -
  from assms(1) have "(\<exists>c. map_of old p = Some (File c)) \<or> (\<exists>c. map_of new p = Some (File c))"
    by (auto simp: classify_def split: option.splits node.splits if_splits)
  then have "(\<exists>c. (p, c) \<in> set (rglob_files old)) \<or> (\<exists>c. (p, c) \<in> set (rglob_files new))"
    using assms(2,3) by (auto simp: rglob_files_set tree_ok_def dest: map_of_SomeD)
  then show ?thesis by (force simp: file_paths_def)
qed

lemma entry_of_key:
  assumes "entry_of X old new p = Some (k, v)" "entry_of X old new q = Some (k, v')"
    and "tree_ok old" "tree_ok new" "list_all reversible (file_paths old new)"
  shows "p = q \<and> v = v'"
proof -
  from assms(1) obtain ext where p: "classify X old new p = Some (ext, v)" "k = entry_name p ext"
    by (auto simp: entry_of_def)
  from assms(2) obtain ext' where q: "classify X old new q = Some (ext', v')" "k = entry_name q ext'"
    by (auto simp: entry_of_def)
  have rp: "reversible p" and rq: "reversible q"
    using classify_file[OF p(1) assms(3,4)] classify_file[OF q(1) assms(3,4)] assms(5)
    by (auto simp: list_all_iff)
  have "patch_name_of (as_posix p) = patch_name_of (as_posix q)"
    using p(2) q(2) classify_kind[OF p(1)] classify_kind[OF q(1)]
    by (auto simp: entry_name_def intro: suffix_kind)
  then have "path_parts (rel_path_of (patch_name_of (as_posix p)))
           = path_parts (rel_path_of (patch_name_of (as_posix q)))" by simp
  then have "p = q" using rp rq by (simp add: reversible_decode)
  then show ?thesis using p(1) q(1) by simp
qed

lemma emit_new_entry_of:
  assumes "tree_ok old" "tree_ok new" "(p, c) \<in> set (rglob_files new)"
    and "tree_node old (joinpath [] (as_posix p)) \<noteq> Some Dir"
  shows "emit_new X old (p, c) = entry_of X old new p"
proof -
  have p: "rel_ok p" using assms(2,3) by (auto simp: tree_ok_def list_all_iff rglob_files_set)
  have n: "map_of new p = Some (File c)"
    using assms(2,3) by (simp add: rglob_files_set tree_ok_def)
  have o: "tree_node old (joinpath [] (as_posix p)) = map_of old p"
    using p by (rule tree_node_rel)
  show ?thesis
    using assms(4) n unfolding o
    by (auto simp: emit_new_def o entry_of_def classify_def entry_name_def
        split: option.splits node.splits)
qed

lemma emit_old_entry_of:
  assumes "tree_ok old" "tree_ok new" "(p, c) \<in> set (rglob_files old)"
    and "emit_old new (p, c) = Some e"
  shows "entry_of X old new p = Some e"
proof -
  have p: "rel_ok p" using assms(1,3) by (auto simp: tree_ok_def list_all_iff rglob_files_set)
  have o: "map_of old p = Some (File c)"
    using assms(1,3) by (simp add: rglob_files_set tree_ok_def)
  have n: "tree_node new (joinpath [] (as_posix p)) = map_of new p"
    using p by (rule tree_node_rel)
  show ?thesis
    using assms(4) o
    by (auto simp: emit_old_def n entry_of_def classify_def entry_name_def split: if_splits)
qed

lemma emit_old_removed:
  assumes "tree_ok old" "(p, c) \<in> set (rglob_files old)" "map_of new p = None"
  shows "emit_old new (p, c) = entry_of X old new p"
proof -
  have p: "rel_ok p" using assms(1,2) by (auto simp: tree_ok_def list_all_iff rglob_files_set)
  have o: "map_of old p = Some (File c)"
    using assms(1,2) by (simp add: rglob_files_set tree_ok_def)
  have n: "tree_node new (joinpath [] (as_posix p)) = map_of new p"
    using p by (rule tree_node_rel)
  show ?thesis
    using assms(3) o
    by (auto simp: emit_old_def n entry_of_def classify_def entry_name_def)
qed

lemma collect_planned:
  assumes "tree_ok old" "tree_ok new" "list_all reversible (file_paths old new)"
    and "collect X cancelled old new = Inr st"
  shows "distinct (map fst (patch_tmp st)) \<and> set (patch_tmp st) = planned X old new"
proof -
  let ?f1 = "emit_new X old" and ?f2 = "emit_old new"
  let ?l1 = "rglob_files new" and ?l2 = "rglob_files old"
  from assms(4) obtain st1 where l1: "new_files_loop X cancelled old 0 ?l1 \<lparr>manifest_of = [], patch_tmp = []\<rparr> = Inr st1"
    and l2: "old_files_loop cancelled new (length ?l1) ?l2 st1 = Inr st"
    by (auto simp: collect_def Let_def split: sum.splits)
  define al1 where "al1 = fold (\<lambda>x. put (?f1 x)) ?l1 []"
  have t1: "patch_tmp st1 = al1"
    and nd: "\<forall>x \<in> set ?l1. tree_node old (joinpath [] (as_posix (fst x))) \<noteq> Some Dir"
    using new_files_loop_put[OF l1] by (simp_all add: al1_def)
  have t2: "patch_tmp st = fold (\<lambda>x. put (?f2 x)) ?l2 al1"
    using old_files_loop_put[OF l2] t1 by simp
  have e1: "?f1 x = entry_of X old new (fst x)" if "x \<in> set ?l1" for x
    using emit_new_entry_of[OF assms(1,2), of "fst x" "snd x" X] that nd by simp
  have e2: "entry_of X old new (fst x) = Some e" if "x \<in> set ?l2" "?f2 x = Some e" for x e
    using emit_old_entry_of[OF assms(1,2), of "fst x" "snd x" e X] that by simp
  have d: "distinct (map fst (patch_tmp st))"
    unfolding t2 al1_def by (intro fold_put_distinct) simp
  have sound: "(k, v) \<in> planned X old new" if "map_of (patch_tmp st) k = Some v" for k v
  proof -
    from fold_put_sound[OF that[unfolded t2]]
    have "(\<exists>x \<in> set ?l2. ?f2 x = Some (k, v)) \<or> map_of al1 k = Some v" .
    then show ?thesis
    proof
      assume "\<exists>x \<in> set ?l2. ?f2 x = Some (k, v)"
      then obtain x where "x \<in> set ?l2" "?f2 x = Some (k, v)" by blast
      then have "entry_of X old new (fst x) = Some (k, v)" by (rule e2)
      then show ?thesis unfolding planned_def by blast
    next
      assume "map_of al1 k = Some v"
      from fold_put_sound[OF this[unfolded al1_def]]
      have "\<exists>x \<in> set ?l1. ?f1 x = Some (k, v)" by simp
      then obtain x where "x \<in> set ?l1" "?f1 x = Some (k, v)" by blast
      then have "entry_of X old new (fst x) = Some (k, v)" using e1[of x] by simp
      then show ?thesis unfolding planned_def by blast
    qed
  qed
  have complete: "map_of (patch_tmp st) k = Some v" if "(k, v) \<in> planned X old new" for k v
  proof -
    from that obtain p where p: "entry_of X old new p = Some (k, v)" by (auto simp: planned_def)
    have u1: "\<forall>y \<in> set ?l1. \<forall>v'. ?f1 y = Some (k, v') \<longrightarrow> v' = v"
      using e1 entry_of_key[OF p _ assms(1,2,3)] by auto
    have u2: "\<forall>y \<in> set ?l2. \<forall>v'. ?f2 y = Some (k, v') \<longrightarrow> v' = v"
      using e2 entry_of_key[OF p _ assms(1,2,3)] by blast
    show ?thesis
    proof (cases "\<exists>c. map_of new p = Some (File c)")
      case True
      then obtain c where "(p, c) \<in> set ?l1"
        using assms(2) by (auto simp: rglob_files_set tree_ok_def dest: map_of_SomeD)
      moreover from this have "?f1 (p, c) = Some (k, v)" using e1[of "(p, c)"] p by simp
      ultimately have "map_of al1 k = Some v"
        unfolding al1_def using u1 by (rule fold_put_complete)
      then show ?thesis unfolding t2 using u2 by (rule fold_put_keep)
    next
      case False
      with p obtain c where o: "map_of old p = Some (File c)" and n: "map_of new p = None"
        by (auto simp: entry_of_def classify_def split: option.splits node.splits if_splits)
      then have "(p, c) \<in> set ?l2"
        using assms(1) by (auto simp: rglob_files_set tree_ok_def dest: map_of_SomeD)
      moreover from this have "?f2 (p, c) = Some (k, v)"
        using emit_old_removed[OF assms(1) _ n, of c X] p by simp
      ultimately show ?thesis
        unfolding t2 using u2 by (rule fold_put_complete)
    qed
  qed
  have "set (patch_tmp st) = planned X old new"
  proof (intro set_eqI iffI)
    fix e assume "e \<in> set (patch_tmp st)"
    then have "map_of (patch_tmp st) (fst e) = Some (snd e)" using d by simp
    from sound[OF this] show "e \<in> planned X old new" by simp
  next
    fix e assume "e \<in> planned X old new"
    then have "map_of (patch_tmp st) (fst e) = Some (snd e)" using complete[of "fst e" "snd e"] by simp
    then show "e \<in> set (patch_tmp st)" using map_of_SomeD[of "patch_tmp st" "fst e" "snd e"] by simp
  qed
  with d show ?thesis by simp
qed

lemma tree_ok_key: "tree_ok t \<Longrightarrow> map_of t p = Some n \<Longrightarrow> rel_ok p"
  by (auto simp: tree_ok_def list_all_iff dest!: map_of_SomeD)

lemma tree_ok_Nil: "tree_ok t \<Longrightarrow> map_of t [] = None"
  using tree_ok_key[of t "[]"] by (cases "map_of t []") (auto simp: rel_ok_def)

lemma tree_ok_above:
  "tree_ok t \<Longrightarrow> map_of t p = Some n \<Longrightarrow> q \<in> set (ancestors (butlast p)) \<Longrightarrow> map_of t q = Some Dir"
  by (auto simp: tree_ok_def list_all_iff dest!: map_of_SomeD)

lemma compatible_old_file:
  assumes "compatible old new" "map_of old p = Some (File c)"
  shows "map_of new p \<noteq> Some Dir"
proof -
  have "(p, File c) \<in> set old" using assms(2) by (rule map_of_SomeD)
  then show ?thesis using assms(1) by (force simp: compatible_def list_all_iff)
qed

lemma compatible_old_dir:
  assumes "compatible old new" "map_of old p = Some Dir"
  shows "map_of new p \<noteq> Some (File c)"
proof -
  have "(p, Dir) \<in> set old" using assms(2) by (rule map_of_SomeD)
  then show ?thesis using assms(1) by (force simp: compatible_def list_all_iff)
qed

lemma tmp_free_modified:
  assumes "tmp_free old new" "tree_ok old" "map_of old p = Some (File co)" "map_of new p = Some (File cn)"
    "co \<noteq> cn"
  shows "map_of old (tmp_new p) = None \<and> map_of new (tmp_new p) = None"
proof -
  have "(p, co) \<in> set (rglob_files old)"
    using assms(2,3) by (auto simp: rglob_files_set dest: map_of_SomeD)
  then show ?thesis using assms(1,4,5) by (auto simp: tmp_free_def list_all_iff)
qed

lemma above_file:
  assumes "patchable old new"
    and "(\<exists>n. map_of old p = Some n) \<or> (\<exists>n. map_of new p = Some n)"
    and "q \<in> set (ancestors (butlast p))"
  shows "(map_of old q = Some Dir \<or> map_of new q = Some Dir)
       \<and> map_of old q \<noteq> Some (File c) \<and> map_of new q \<noteq> Some (File c)"
proof -
  have ok: "tree_ok old" "tree_ok new" "compatible old new"
    using assms(1) by (simp_all add: patchable_def)
  from assms(2) have d: "map_of old q = Some Dir \<or> map_of new q = Some Dir"
    using tree_ok_above[OF ok(1) _ assms(3)] tree_ok_above[OF ok(2) _ assms(3)] by blast
  then show ?thesis
  proof
    assume o: "map_of old q = Some Dir"
    then show ?thesis using compatible_old_dir[OF ok(3) o] by simp
  next
    assume n: "map_of new q = Some Dir"
    then show ?thesis using compatible_old_file[OF ok(3)] by auto
  qed
qed

lemma rel_ok_target:
  assumes "rel_ok p"
  shows "g @ p \<noteq> []" "\<not> (length (g @ p) = 1 \<and> is_root (hd (g @ p)))"
    "parent (g @ p) = g @ butlast p" "tmp_new (g @ p) = g @ tmp_new p"
    "node_at f (g @ p) = f (g @ p)" "tmp_new p \<noteq> []" "tmp_new p \<noteq> p"
proof -
  from assms obtain x xs where p: "p = xs @ [x]" "name_ok x"
    by (cases p rule: rev_cases) (auto simp: rel_ok_def)
  have nr: "\<not> is_root x" using p(2) by (auto simp: name_ok_def is_root_def)
  show a: "g @ p \<noteq> []" using p by simp
  show b: "\<not> (length (g @ p) = 1 \<and> is_root (hd (g @ p)))"
    using p nr by (cases g; cases xs) auto
  show "parent (g @ p) = g @ butlast p"
    using a b p by (simp add: parent_def butlast_append)
  have b0: "\<not> (length p = 1 \<and> is_root (hd p))" using p nr by (cases xs) auto
  show "tmp_new (g @ p) = g @ tmp_new p"
    using a b b0 p by (simp add: tmp_new_def butlast_append)
  show "node_at f (g @ p) = f (g @ p)"
    using a b by (auto simp: node_at_def)
  show "tmp_new p \<noteq> []" using tmp_new_plain[of p] by simp
  show "tmp_new p \<noteq> p" using p b0 by (simp add: tmp_new_def)
qed

lemma cur_insert_other: "q \<noteq> p \<Longrightarrow> cur (insert p S) old new q = cur S old new q"
  by (simp add: cur_def)

lemma cur_insert_same: "cur (insert p S) old new p = map_of new p"
  by (simp add: cur_def)

lemma cur_not_in: "p \<notin> S \<Longrightarrow> cur S old new p = map_of old p"
  by (simp add: cur_def)

lemma cur_either: "cur S old new q = map_of old q \<or> cur S old new q = map_of new q"
  by (simp add: cur_def)

lemma fs_inv_file:
  "fs_inv g old new S f \<Longrightarrow> f (g @ q) = Some (File c) \<longleftrightarrow> cur S old new q = Some (File c)"
  by (auto simp: fs_inv_def)

lemma fs_inv_set:
  assumes "fs_inv g old new S f" "map_of new p = Some (File cn)"
  shows "fs_inv g old new (insert p S) (f(g @ p \<mapsto> File cn))"
  unfolding fs_inv_def
proof (intro conjI allI impI)
  fix a c
  show "(f(g @ p \<mapsto> File cn)) a = Some (File c)
        \<longleftrightarrow> (\<exists>q. a = g @ q \<and> cur (insert p S) old new q = Some (File c))"
  proof (cases "a = g @ p")
    case True
    then show ?thesis using assms(2) by (auto simp: cur_insert_same)
  next
    case False
    then have "(\<exists>q. a = g @ q \<and> cur (insert p S) old new q = Some (File c))
             \<longleftrightarrow> (\<exists>q. a = g @ q \<and> cur S old new q = Some (File c))"
      by (metis cur_insert_other)
    then show ?thesis using False assms(1) by (simp add: fs_inv_def)
  qed
next
  fix q assume "(f(g @ p \<mapsto> File cn)) (g @ q) = Some Dir"
  then have "f (g @ q) = Some Dir" by (auto split: if_splits)
  then show "q = [] \<or> map_of old q = Some Dir \<or> map_of new q = Some Dir"
    using assms(1) by (simp add: fs_inv_def)
qed

lemma fs_inv_del:
  assumes "fs_inv g old new S f" "map_of new p = None"
  shows "fs_inv g old new (insert p S) (f(g @ p := None))"
  unfolding fs_inv_def
proof (intro conjI allI impI)
  fix a c
  show "(f(g @ p := None)) a = Some (File c)
        \<longleftrightarrow> (\<exists>q. a = g @ q \<and> cur (insert p S) old new q = Some (File c))"
  proof (cases "a = g @ p")
    case True
    then show ?thesis using assms(2) by (auto simp: cur_insert_same)
  next
    case False
    then have "(\<exists>q. a = g @ q \<and> cur (insert p S) old new q = Some (File c))
             \<longleftrightarrow> (\<exists>q. a = g @ q \<and> cur S old new q = Some (File c))"
      by (metis cur_insert_other)
    then show ?thesis using False assms(1) by (simp add: fs_inv_def)
  qed
next
  fix q assume "(f(g @ p := None)) (g @ q) = Some Dir"
  then have "f (g @ q) = Some Dir" by (auto split: if_splits)
  then show "q = [] \<or> map_of old q = Some Dir \<or> map_of new q = Some Dir"
    using assms(1) by (simp add: fs_inv_def)
qed

lemma fs_inv_tmp:
  assumes "fs_inv g old new S f" "map_of old t = None" "map_of new t = None"
  shows "fs_inv g old new S (f(g @ t := None))"
  unfolding fs_inv_def
proof (intro conjI allI impI)
  fix a c
  show "(f(g @ t := None)) a = Some (File c)
        \<longleftrightarrow> (\<exists>q. a = g @ q \<and> cur S old new q = Some (File c))"
  proof (cases "a = g @ t")
    case True
    have "cur S old new t = None" using assms(2,3) by (simp add: cur_def)
    then show ?thesis using True by auto
  next
    case False
    then show ?thesis using assms(1) by (simp add: fs_inv_def)
  qed
next
  fix q assume "(f(g @ t := None)) (g @ q) = Some Dir"
  then have "f (g @ q) = Some Dir" by (auto split: if_splits)
  then show "q = [] \<or> map_of old q = Some Dir \<or> map_of new q = Some Dir"
    using assms(1) by (simp add: fs_inv_def)
qed

lemma ancestors_append:
  assumes "g @ q \<in> set (ancestors (g @ d))"
  shows "q = [] \<or> q \<in> set (ancestors d)"
  using assms by (auto simp: ancestors_iff)

lemma fs_inv_mkdir:
  assumes "patchable old new" "fs_inv g old new S f" "rel_ok p"
    and "(\<exists>n. map_of old p = Some n) \<or> (\<exists>n. map_of new p = Some n)"
  shows "\<exists>f1. mkdir f (g @ butlast p) = Inr f1 \<and> fs_inv g old new S f1 \<and> f1 (g @ p) = f (g @ p)"
proof -
  have ok: "tree_ok old" "tree_ok new" using assms(1) by (simp_all add: patchable_def)
  have nofile: "\<not> is_file f a" if a: "a \<in> set (ancestors (g @ butlast p))" for a
  proof
    assume "is_file f a"
    then obtain c where "node_at f a = Some (File c)" by (auto simp: is_file_node_at)
    then have "f a = Some (File c)" by (auto simp: node_at_def split: if_splits)
    then obtain q where q: "a = g @ q" "cur S old new q = Some (File c)"
      using assms(2) by (auto simp: fs_inv_def)
    have "q \<noteq> []" using q(2) cur_either[of S old new "[]"] tree_ok_Nil[OF ok(1)] tree_ok_Nil[OF ok(2)]
      by auto
    then have "q \<in> set (ancestors (butlast p))"
      using a q(1) ancestors_append[of g q "butlast p"] by simp
    from above_file[OF assms(1,4) this, of c] show False
      using q(2) cur_either[of S old new q] by auto
  qed
  then have "find (is_file f) (ancestors (g @ butlast p)) = None"
    by (simp add: find_None_iff)
  then obtain f1 where f1: "mkdir f (g @ butlast p) = Inr f1"
    by (simp add: mkdir_def)
  note ch = mkdir_changes[OF f1]
  have same_files: "f1 a = Some (File c) \<longleftrightarrow> f a = Some (File c)" for a c
    using ch[of a] by (cases "f1 a = f a") auto
  have "fs_inv g old new S f1"
    unfolding fs_inv_def
  proof (intro conjI allI impI)
    fix a c
    show "f1 a = Some (File c) \<longleftrightarrow> (\<exists>q. a = g @ q \<and> cur S old new q = Some (File c))"
      using same_files assms(2) by (simp add: fs_inv_def)
  next
    fix q assume d: "f1 (g @ q) = Some Dir"
    show "q = [] \<or> map_of old q = Some Dir \<or> map_of new q = Some Dir"
    proof (cases "f1 (g @ q) = f (g @ q)")
      case True
      then show ?thesis using d assms(2) by (simp add: fs_inv_def)
    next
      case False
      from ch[OF False] have "g @ q \<in> set (ancestors (g @ butlast p))" by simp
      then have "q = [] \<or> q \<in> set (ancestors (butlast p))" by (rule ancestors_append)
      then show ?thesis using above_file[OF assms(1,4), of q] by auto
    qed
  qed
  moreover have "f1 (g @ p) = f (g @ p)"
  proof (rule ccontr)
    assume "f1 (g @ p) \<noteq> f (g @ p)"
    from ch[OF this] have "prefix (g @ p) (g @ butlast p)" by (simp add: ancestors_iff)
    then have "prefix p (butlast p)" by simp
    then have "length p \<le> length (butlast p)" by (rule prefix_length_le)
    then show False using assms(3) by (cases p rule: rev_cases) (auto simp: rel_ok_def)
  qed
  ultimately show ?thesis using f1 by blast
qed

lemma classify_cases:
  assumes "classify X old new p = Some (ext, content)"
  obtains (modified) co cn where "map_of old p = Some (File co)" "map_of new p = Some (File cn)"
      "co \<noteq> cn" "ext = ''.patch''" "content = detools_create_patch X co cn"
  | (added) cn where "map_of old p = None" "map_of new p = Some (File cn)"
      "ext = ''.full''" "content = cn"
  | (removed) co where "map_of old p = Some (File co)" "map_of new p = None"
      "ext = ''.delete''" "content = ''DELETE''"
  using assms
  by (auto simp: classify_def split: option.splits node.splits if_splits)

lemma decode_entry:
  assumes "reversible p" "ext \<in> kinds"
  shows "splitext (entry_name p ext) = (patch_name_of (as_posix p), ext)"
    and "joinpath g (rel_path_of (patch_name_of (as_posix p))) = g @ p"
    and "path_parts (rel_path_of (patch_name_of (as_posix p))) = p"
proof -
  have r: "rel_ok p" "list_ex (\<lambda>c. c \<noteq> CHR ''.'') (as_posix p)"
    using assms(1) by (simp_all add: reversible_def)
  show "splitext (entry_name p ext) = (patch_name_of (as_posix p), ext)"
    unfolding entry_name_def using r(2) assms(2)[unfolded kinds_def] by (rule splitext_kind)
  show d: "path_parts (rel_path_of (patch_name_of (as_posix p))) = p"
    using assms(1) by (rule reversible_decode)
  show "joinpath g (rel_path_of (patch_name_of (as_posix p))) = g @ p"
    using rel_ok_not_absolute[OF r(1)] by (simp add: joinpath_def d)
qed

lemma store_inv_update:
  "store_inv old rb \<Longrightarrow> map_of old p = Some (File co) \<Longrightarrow> store_inv old (AList.update p c rb)"
  by (simp add: store_inv_def dom_update)

lemma backup_file:
  assumes "path_parts rel = p" "rel_ok p" "store_inv old rb" "tree_ok old"
    "map_of old p = Some (File co)"
  shows "backup rb rel t (File c) = Inr (AList.update p c rb)"
proof -
  have na: "\<not> is_absolute p" using assms(2) by (rule rel_ok_not_absolute)
  have key: "\<exists>c. map_of old k = Some (File c)" if "k \<in> fst ` set rb" for k
    using assms(3) that unfolding store_inv_def by blast
  have "q \<notin> set (map fst rb)" if q: "q \<in> set (ancestors (parent p))" for q
  proof
    assume "q \<in> set (map fst rb)"
    then obtain c' where "map_of old q = Some (File c')" using key[of q] by auto
    moreover have "map_of old q = Some Dir"
      using tree_ok_above[OF assms(4,5)] q by (simp add: parent_relative[OF na])
    ultimately show False by simp
  qed
  then have f: "find (\<lambda>q. q \<in> set (map fst rb)) (ancestors (parent p)) = None"
    by (simp add: find_None_iff)
  have nd: "\<not> backup_is_dir rb p"
  proof
    assume "backup_is_dir rb p"
    then obtain k where k: "k \<in> fst ` set rb" "strict_prefix p k"
      using assms(2) by (auto simp: backup_is_dir_iff rel_ok_def)
    from key[OF k(1)] obtain c' where c': "map_of old k = Some (File c')" ..
    have "p \<in> set (ancestors (butlast k))"
      using k(2) assms(2) by (simp add: ancestors_iff strict_prefix_butlast rel_ok_def)
    from tree_ok_above[OF assms(4) c' this] show False using assms(5) by simp
  qed
  show ?thesis
    using na f nd by (simp add: backup_def assms(1))
qed

lemma dispatch_patch:
  assumes "node_at f t = Some (File old)" "node_at f (tmp_new t) \<noteq> Some Dir"
    "detools_apply_patch X old d = Rebuilt new"
  shows "dispatch X ''.patch'' n t d f = ((f(tmp_new t := None))(t \<mapsto> File new), None)"
  using assms by (auto simp: dispatch_def split: option.splits node.splits)

lemma dispatch_full:
  assumes "node_at f t = None"
  shows "dispatch X ''.full'' n t d f = (f(t \<mapsto> File d), None)"
  using assms by (simp add: dispatch_def)

lemma dispatch_delete:
  assumes "node_at f t = Some (File c)"
  shows "dispatch X ''.delete'' n t d f = (f(t := None), None)"
  using assms by (simp add: dispatch_def)

lemma apply_planned_entry:
  assumes P: "patchable old new" and C: "codec_ok X"
    and I: "fs_inv g old new S (tree s)" and R: "store_inv old (rollback_dir s)"
    and E: "entry_of X old new p = Some (name, content)" and N: "p \<notin> S"
  shows "\<exists>s'. apply_entry X g s (name, content) = (s', None)
            \<and> fs_inv g old new (insert p S) (tree s') \<and> store_inv old (rollback_dir s')"
proof -
  have ok: "tree_ok old" "tree_ok new" "list_all reversible (file_paths old new)" "tmp_free old new"
    using P by (simp_all add: patchable_def)
  from E obtain ext where cl: "classify X old new p = Some (ext, content)"
    and nm: "name = entry_name p ext"
    by (auto simp: entry_of_def)
  have rp: "reversible p"
    using classify_file[OF cl ok(1,2)] ok(3) by (simp add: list_all_iff)
  then have rel: "rel_ok p" by (simp add: reversible_def)
  have k: "ext \<in> kinds" using cl by (rule classify_kind)
  note dec = decode_entry[OF rp k]
  have node: "(\<exists>n. map_of old p = Some n) \<or> (\<exists>n. map_of new p = Some n)"
    using cl by (cases rule: classify_cases) auto
  from fs_inv_mkdir[OF P I rel node] obtain f1 where mk: "mkdir (tree s) (g @ butlast p) = Inr f1"
    and I1: "fs_inv g old new S f1" and same: "f1 (g @ p) = tree s (g @ p)"
    by blast
  note tg = rel_ok_target[OF rel]
  from cl show ?thesis
  proof (cases rule: classify_cases)
    case (modified co cn)
    have t: "f1 (g @ p) = Some (File co)"
      using fs_inv_file[OF I1, of p co] cur_not_in[OF N, of old new] modified(1) by simp
    have bk: "backup (rollback_dir s) (rel_path_of (patch_name_of (as_posix p))) (g @ p) (File co)
                = Inr (AList.update p co (rollback_dir s))"
      using dec(3) rel R ok(1) modified(1) by (rule backup_file)
    have tf: "map_of old (tmp_new p) = None" "map_of new (tmp_new p) = None"
      using tmp_free_modified[OF ok(4,1) modified(1,2,3)] by simp_all
    have nd: "node_at f1 (tmp_new (g @ p)) \<noteq> Some Dir"
    proof
      assume "node_at f1 (tmp_new (g @ p)) = Some Dir"
      then have "f1 (g @ tmp_new p) = Some Dir"
        using node_at_tmp_new[of f1 "g @ p"] by (simp add: tg(4))
      then show False using I1 tf tg(6) by (auto simp: fs_inv_def)
    qed
    have dp: "dispatch X ''.patch'' (entry_name p ''.patch'') (g @ p) (detools_create_patch X co cn) f1
                = ((f1(tmp_new (g @ p) := None))(g @ p \<mapsto> File cn), None)"
      using C by (intro dispatch_patch[where old = co]) (simp_all add: tg(5) t nd codec_ok_def)
    have ae: "apply_entry X g s (name, content)
                = (\<lparr>tree = (f1(g @ tmp_new p := None))(g @ p \<mapsto> File cn),
                    rollback_dir = AList.update p co (rollback_dir s)\<rparr>, None)"
      unfolding nm modified(4,5)
      using dec(1,2)[unfolded modified(4)] mk t bk dp
      by (simp add: apply_entry_def tg(3,4,5))
    have "fs_inv g old new (insert p S) ((f1(g @ tmp_new p := None))(g @ p \<mapsto> File cn))"
      using fs_inv_tmp[OF I1 tf] modified(2) by (rule fs_inv_set)
    moreover have "store_inv old (AList.update p co (rollback_dir s))"
      using R modified(1) by (rule store_inv_update)
    ultimately show ?thesis using ae by simp
  next
    case (added cn)
    have "f1 (g @ p) \<noteq> Some (File c)" for c
      using fs_inv_file[OF I1, of p c] cur_not_in[OF N, of old new] added(1) by simp
    moreover have "f1 (g @ p) \<noteq> Some Dir"
      using I1 added(1,2) rel by (auto simp: fs_inv_def rel_ok_def)
    ultimately have t: "f1 (g @ p) = None"
      by (cases "f1 (g @ p)") (auto intro: node.exhaust)
    have dp: "dispatch X ''.full'' (entry_name p ''.full'') (g @ p) cn f1 = (f1(g @ p \<mapsto> File cn), None)"
      by (intro dispatch_full) (simp add: tg(5) t)
    have ae: "apply_entry X g s (name, content)
                = (\<lparr>tree = f1(g @ p \<mapsto> File cn), rollback_dir = rollback_dir s\<rparr>, None)"
      unfolding nm added(3,4)
      using dec(1,2)[unfolded added(3)] mk t dp
      by (simp add: apply_entry_def tg(3,5))
    have "fs_inv g old new (insert p S) (f1(g @ p \<mapsto> File cn))"
      using I1 added(2) by (rule fs_inv_set)
    then show ?thesis using ae R by simp
  next
    case (removed co)
    have t: "f1 (g @ p) = Some (File co)"
      using fs_inv_file[OF I1, of p co] cur_not_in[OF N, of old new] removed(1) by simp
    have bk: "backup (rollback_dir s) (rel_path_of (patch_name_of (as_posix p))) (g @ p) (File co)
                = Inr (AList.update p co (rollback_dir s))"
      using dec(3) rel R ok(1) removed(1) by (rule backup_file)
    have dp: "dispatch X ''.delete'' (entry_name p ''.delete'') (g @ p) ''DELETE'' f1
                = (f1(g @ p := None), None)"
      by (intro dispatch_delete[where c = co]) (simp add: tg(5) t)
    have ae: "apply_entry X g s (name, content)
                = (\<lparr>tree = f1(g @ p := None), rollback_dir = AList.update p co (rollback_dir s)\<rparr>, None)"
      unfolding nm removed(3,4)
      using dec(1,2)[unfolded removed(3)] mk t bk dp
      by (simp add: apply_entry_def tg(3,5))
    have "fs_inv g old new (insert p S) (f1(g @ p := None))"
      using I1 removed(2) by (rule fs_inv_del)
    moreover have "store_inv old (AList.update p co (rollback_dir s))"
      using R removed(1) by (rule store_inv_update)
    ultimately show ?thesis using ae by simp
  qed
qed

lemma apply_planned_entries:
  assumes P: "patchable old new" and C: "codec_ok X"
  shows "fs_inv g old new S (tree s) \<Longrightarrow> store_inv old (rollback_dir s) \<Longrightarrow>
         \<forall>e \<in> set es. \<exists>p. entry_of X old new p = Some e \<and> p \<notin> S \<Longrightarrow>
         distinct (map fst es) \<Longrightarrow>
         \<exists>s'. apply_entries X never g i es s = (s', None)
             \<and> fs_inv g old new (S \<union> {p. \<exists>e \<in> set es. entry_of X old new p = Some e}) (tree s')"
proof (induction es arbitrary: i s S)
  case Nil
  then show ?case by simp
next
  case (Cons e es)
  have ok: "tree_ok old" "tree_ok new" "list_all reversible (file_paths old new)"
    using P by (simp_all add: patchable_def)
  have "e \<in> set (e # es)" by simp
  with Cons.prems(3) obtain p where p: "entry_of X old new p = Some e" "p \<notin> S" by blast
  obtain name content where e: "e = (name, content)" by (cases e)
  from apply_planned_entry[OF P C Cons.prems(1,2) p(1)[unfolded e] p(2)]
  obtain s1 where s1: "apply_entry X g s (name, content) = (s1, None)"
    and I1: "fs_inv g old new (insert p S) (tree s1)" and R1: "store_inv old (rollback_dir s1)"
    by blast
  have rest: "\<forall>e' \<in> set es. \<exists>q. entry_of X old new q = Some e' \<and> q \<notin> insert p S"
  proof
    fix e' assume e': "e' \<in> set es"
    then have "e' \<in> set (e # es)" by simp
    with Cons.prems(3) obtain q where q: "entry_of X old new q = Some e'" "q \<notin> S" by blast
    have "q \<noteq> p"
    proof
      assume "q = p"
      then have "e' = e" using q(1) p(1) by simp
      then have "fst e \<in> fst ` set es" using e' by blast
      then show False using Cons.prems(4) by simp
    qed
    then show "\<exists>q. entry_of X old new q = Some e' \<and> q \<notin> insert p S" using q by blast
  qed
  have d: "distinct (map fst es)" using Cons.prems(4) by simp
  from Cons.IH[OF I1 R1 rest d, of "Suc i"]
  obtain s' where s': "apply_entries X never g (Suc i) es s1 = (s', None)"
    and I': "fs_inv g old new (insert p S \<union> {q. \<exists>e' \<in> set es. entry_of X old new q = Some e'}) (tree s')"
    by blast
  have uniq: "q = p" if "entry_of X old new q = Some e" for q
    using entry_of_key[OF that[unfolded e] p(1)[unfolded e] ok] by simp
  have "{q. entry_of X old new q = Some e} = {p}"
    using p(1) uniq by blast
  moreover have "{q. \<exists>e' \<in> set (e # es). entry_of X old new q = Some e'}
      = {q. entry_of X old new q = Some e} \<union> {q. \<exists>e' \<in> set es. entry_of X old new q = Some e'}"
    by (simp add: Collect_disj_eq)
  ultimately have "insert p S \<union> {q. \<exists>e' \<in> set es. entry_of X old new q = Some e'}
      = S \<union> {q. \<exists>e' \<in> set (e # es). entry_of X old new q = Some e'}"
    by simp
  with I' have "fs_inv g old new (S \<union> {q. \<exists>e' \<in> set (e # es). entry_of X old new q = Some e'}) (tree s')"
    by simp
  moreover have "apply_entries X never g i (e # es) s = (s', None)"
    using s1 s' e by (simp add: never_def)
  ultimately show ?case by blast
qed

lemma unclassified_same:
  assumes "patchable old new" "classify X old new q = None"
  shows "map_of old q = Some (File c) \<longleftrightarrow> map_of new q = Some (File c)"
proof -
  have c: "compatible old new" using assms(1) by (simp add: patchable_def)
  show ?thesis
    using assms(2) compatible_old_file[OF c, of q] compatible_old_dir[OF c, of q]
    by (auto simp: classify_def split: option.splits node.splits if_splits)
qed

lemma mount_inv:
  assumes "tree_ok old"
  shows "fs_inv g old new {} (mount g old)"
  unfolding fs_inv_def
proof (intro conjI allI impI)
  fix a c
  show "mount g old a = Some (File c) \<longleftrightarrow> (\<exists>q. a = g @ q \<and> cur {} old new q = Some (File c))"
  proof
    assume m: "mount g old a = Some (File c)"
    then have "take (length g) a = g" "map_of old (drop (length g) a) = Some (File c)"
      by (auto simp: mount_def split: if_splits)
    then have "a = g @ drop (length g) a \<and> cur {} old new (drop (length g) a) = Some (File c)"
      by (metis append_take_drop_id cur_def empty_iff)
    then show "\<exists>q. a = g @ q \<and> cur {} old new q = Some (File c)" ..
  next
    assume "\<exists>q. a = g @ q \<and> cur {} old new q = Some (File c)"
    then obtain q where q: "a = g @ q" "map_of old q = Some (File c)" by (auto simp: cur_def)
    have "q \<noteq> []" using q(2) tree_ok_Nil[OF assms] by auto
    then have "a \<notin> set (ancestors g)" using q(1) by (auto simp: ancestors_iff)
    then show "mount g old a = Some (File c)" using q by (simp add: mount_def)
  qed
next
  fix q assume "mount g old (g @ q) = Some Dir"
  then show "q = [] \<or> map_of old q = Some Dir \<or> map_of new q = Some Dir"
    by (auto simp: mount_def ancestors_iff split: if_splits)
qed

lemma not_manifest_name: "ext \<in> kinds \<Longrightarrow> s @ ext \<noteq> ''manifest.json''"
proof
  assume a: "ext \<in> kinds" "s @ ext = ''manifest.json''"
  then have "last (s @ ext) = CHR ''n''" by simp
  then show False using a(1) by (auto simp: kinds_def)
qed

lemma planned_not_manifest: "e \<in> planned X old new \<Longrightarrow> fst e \<noteq> ''manifest.json''"
  by (auto simp: planned_def entry_of_def entry_name_def dest!: classify_kind not_manifest_name)

lemma update_set_subset: "set (AList.update k v al) \<subseteq> insert (k, v) (set al)"
  by (induction al) auto

lemma fold_update_set:
  "set (fold (\<lambda>r. AList.update (fst (h r)) (snd (h r))) rs m) \<subseteq> h ` set rs \<union> set m"
proof (induction rs arbitrary: m)
  case Nil
  then show ?case by simp
next
  case (Cons a rs)
  have "set (fold (\<lambda>r. AList.update (fst (h r)) (snd (h r))) rs (AList.update (fst (h a)) (snd (h a)) m))
        \<subseteq> h ` set rs \<union> set (AList.update (fst (h a)) (snd (h a)) m)"
    by (rule Cons.IH)
  moreover have "set (AList.update (fst (h a)) (snd (h a)) m) \<subseteq> insert (h a) (set m)"
    using update_set_subset[of "fst (h a)" "snd (h a)" m] by simp
  ultimately show ?case by auto
qed

lemma validate_ok:
  assumes "\<forall>r \<in> set m. \<exists>p c. rel_ok p \<and> f (g @ p) = Some (File c) \<and> r = record_of X (p, c)"
  shows "validate X g f m = Inr []"
  using assms
proof (induction m)
  case Nil
  then show ?case by simp
next
  case (Cons r m)
  from Cons.prems obtain p c where p: "rel_ok p" "f (g @ p) = Some (File c)" "r = record_of X (p, c)"
    by auto
  have j: "joinpath g (as_posix p) = g @ p"
    using p(1) by (simp add: joinpath_def path_parts_as_posix rel_ok_not_absolute)
  have n: "node_at f (g @ p) = Some (File c)"
    using rel_ok_target(5)[OF p(1)] p(2) by simp
  have "validate X g f m = Inr []" using Cons by simp
  then show ?case using p(3) j n by (simp add: record_of_def)
qed

lemma store_inv_Nil: "store_inv old []"
  by (simp add: store_inv_def)

text \<open>
  C1, as the code has it: for two patchable trees and a delta codec that keeps its contract,
  applying the package that \<open>create_patch\<close> has written, with its patch files listed in
  any order and no cancellation, to a copy of the old tree at \<open>game_dir\<close> succeeds, and
  the files below \<open>game_dir\<close> are then those of the new tree, with the same contents.
\<close>

theorem create_then_apply:
  assumes P: "patchable old new" and C: "codec_ok X"
    and cr: "create_patch X cancelled write_fails old new patch_package
               = (Some (Complete (Archive (Manifest m) files)), Inr ())"
    and perm: "distinct (map fst files')" "set files' = set files"
  shows "snd (apply_patch X never game_dir (Archive (Manifest m) files') (mount game_dir old)) = Inr ()
       \<and> (\<forall>p c. fst (apply_patch X never game_dir (Archive (Manifest m) files') (mount game_dir old))
                   (game_dir @ p) = Some (File c)
                 \<longleftrightarrow> (p, File c) \<in> set new)"
proof -
  have ok: "tree_ok old" "tree_ok new" "list_all reversible (file_paths old new)"
    using P by (simp_all add: patchable_def)
  from cr obtain st where st: "collect X cancelled old new = Inr st"
    and m: "m = manifest_of st" and f: "files = patch_tmp st"
    by (auto simp: create_patch_def split: sum.splits option.splits)
  have pl: "set files' = planned X old new"
    using collect_planned[OF ok st] perm(2) f by simp
  have nf: "filter (\<lambda>p. fst p \<noteq> ''manifest.json'') files' = files'"
    using pl planned_not_manifest[of _ X old new] by (simp add: filter_id_conv)
  have ents: "\<forall>e \<in> set files'. \<exists>p. entry_of X old new p = Some e \<and> p \<notin> {}"
    using pl by (simp add: planned_def)
  define T where "T = {p. \<exists>e \<in> set files'. entry_of X old new p = Some e}"
  let ?s0 = "\<lparr>tree = mount game_dir old, rollback_dir = []\<rparr>"
  have "\<exists>s'. apply_entries X never game_dir 0 files' ?s0 = (s', None)
             \<and> fs_inv game_dir old new ({} \<union> T) (tree s')"
    unfolding T_def
    by (rule apply_planned_entries[OF P C _ _ ents perm(1)])
      (simp_all add: mount_inv[OF ok(1)] store_inv_Nil)
  then obtain s' where run: "apply_entries X never game_dir 0 files' ?s0 = (s', None)"
    and I: "fs_inv game_dir old new T (tree s')"
    by auto
  have T_iff: "q \<in> T \<longleftrightarrow> entry_of X old new q \<noteq> None" for q
    unfolding T_def pl planned_def by auto
  have files_eq: "tree s' (game_dir @ q) = Some (File c) \<longleftrightarrow> map_of new q = Some (File c)" for q c
  proof (cases "q \<in> T")
    case True
    then show ?thesis using fs_inv_file[OF I, of q c] by (simp add: cur_def)
  next
    case False
    then have "entry_of X old new q = None" using T_iff[of q] by blast
    then have "classify X old new q = None" by (simp add: entry_of_def)
    from unclassified_same[OF P this, of c] show ?thesis
      using fs_inv_file[OF I, of q c] False by (simp add: cur_def)
  qed
  have recs: "\<forall>r \<in> set m. \<exists>p c. rel_ok p \<and> tree s' (game_dir @ p) = Some (File c) \<and> r = record_of X (p, c)"
  proof
    fix r assume "r \<in> set m"
    then have "r \<in> record_of X ` set (rglob_files new)"
      using fold_update_set[of "record_of X" "rglob_files new" "[]"] collect_manifest[OF st] m by auto
    then obtain p c where pc: "(p, c) \<in> set (rglob_files new)" "r = record_of X (p, c)" by auto
    then have n: "map_of new p = Some (File c)"
      using ok(2) by (simp add: rglob_files_set tree_ok_def)
    then have "rel_ok p" using tree_ok_key[OF ok(2)] by simp
    moreover have "tree s' (game_dir @ p) = Some (File c)" using n by (simp add: files_eq)
    ultimately show "\<exists>p c. rel_ok p \<and> tree s' (game_dir @ p) = Some (File c) \<and> r = record_of X (p, c)"
      using pc(2) by blast
  qed
  have val: "validate X game_dir (tree s') m = Inr []"
    using recs by (rule validate_ok)
  have t: "apply_try X never game_dir (Archive (Manifest m) files') (mount game_dir old) = (s', None)"
    by (simp add: apply_try_def nf run val)
  then have a: "apply_patch X never game_dir (Archive (Manifest m) files') (mount game_dir old)
                 = (tree s', Inr ())"
    by (simp add: apply_patch_def)
  have "(p, File c) \<in> set new \<longleftrightarrow> map_of new p = Some (File c)" for p c
    using ok(2) by (simp add: tree_ok_def)
  then show ?thesis unfolding a by (simp add: files_eq)
qed

theorem create_then_apply_witness:
  "patchable
     [([''a.txt''], File ''hello''), ([''b.txt''], File ''same''), ([''d''], Dir), ([''d'', ''e.txt''], File ''gone'')]
     [([''a.txt''], File ''hello world''), ([''b.txt''], File ''same''), ([''c.txt''], File ''new'')]
   \<and> codec_ok sample_caps
   \<and> create_patch sample_caps never None
        [([''a.txt''], File ''hello''), ([''b.txt''], File ''same''), ([''d''], Dir), ([''d'', ''e.txt''], File ''gone'')]
        [([''a.txt''], File ''hello world''), ([''b.txt''], File ''same''), ([''c.txt''], File ''new'')]
        None
      = (Some (Complete (Archive
           (Manifest [(''a.txt'', ''hello world'', 11), (''b.txt'', ''same'', 4), (''c.txt'', ''new'', 3)])
           [(''a.txt.patch'', ''Dhello world''), (''c.txt.full'', ''new''), (''d__e.txt.delete'', ''DELETE'')])),
         Inr ())
   \<and> distinct (map fst [(''d__e.txt.delete'', ''DELETE''), (''c.txt.full'', ''new''), (''a.txt.patch'', ''Dhello world'')])
   \<and> set [(''d__e.txt.delete'', ''DELETE''), (''c.txt.full'', ''new''), (''a.txt.patch'', ''Dhello world'')]
      = set [(''a.txt.patch'', ''Dhello world''), (''c.txt.full'', ''new''), (''d__e.txt.delete'', ''DELETE'')]
   \<and> snd (apply_patch sample_caps never [''game'']
        (Archive (Manifest [(''a.txt'', ''hello world'', 11), (''b.txt'', ''same'', 4), (''c.txt'', ''new'', 3)])
           [(''d__e.txt.delete'', ''DELETE''), (''c.txt.full'', ''new''), (''a.txt.patch'', ''Dhello world'')])
        (mount [''game'']
           [([''a.txt''], File ''hello''), ([''b.txt''], File ''same''), ([''d''], Dir), ([''d'', ''e.txt''], File ''gone'')]))
      = Inr ()
   \<and> (\<forall>p c. fst (apply_patch sample_caps never [''game'']
        (Archive (Manifest [(''a.txt'', ''hello world'', 11), (''b.txt'', ''same'', 4), (''c.txt'', ''new'', 3)])
           [(''d__e.txt.delete'', ''DELETE''), (''c.txt.full'', ''new''), (''a.txt.patch'', ''Dhello world'')])
        (mount [''game'']
           [([''a.txt''], File ''hello''), ([''b.txt''], File ''same''), ([''d''], Dir), ([''d'', ''e.txt''], File ''gone'')]))
        ([''game''] @ p) = Some (File c)
      \<longleftrightarrow> (p, File c) \<in> set [([''a.txt''], File ''hello world''), ([''b.txt''], File ''same''), ([''c.txt''], File ''new'')])"
proof -
  let ?old = "[([''a.txt''], File ''hello''), ([''b.txt''], File ''same''), ([''d''], Dir), ([''d'', ''e.txt''], File ''gone'')]"
  let ?new = "[([''a.txt''], File ''hello world''), ([''b.txt''], File ''same''), ([''c.txt''], File ''new'')]"
  let ?files = "[(''a.txt.patch'', ''Dhello world''), (''c.txt.full'', ''new''), (''d__e.txt.delete'', ''DELETE'')]"
  let ?files' = "[(''d__e.txt.delete'', ''DELETE''), (''c.txt.full'', ''new''), (''a.txt.patch'', ''Dhello world'')]"
  have a: "patchable ?old ?new" by code_simp
  have b: "codec_ok sample_caps" by (simp add: codec_ok_def sample_caps_def)
  have c: "create_patch sample_caps never None ?old ?new None
      = (Some (Complete (Archive
           (Manifest [(''a.txt'', ''hello world'', 11), (''b.txt'', ''same'', 4), (''c.txt'', ''new'', 3)])
           ?files)), Inr ())" by code_simp
  have d: "distinct (map fst ?files')" by simp
  have e: "set ?files' = set ?files" by auto
  show ?thesis
    using create_then_apply[OF a b c d e, of "[''game'']"] a b c d e by simp
qed

text \<open>
  C1 as stated fails, for each of three reasons. A new file \<open>a__b\<close> is written to
  \<open>a/b\<close>, and the validation misses \<open>a__b\<close>. A file \<open>a\<close> that has become a
  directory is neither deleted nor replaced, so the directory cannot be made. The scratch
  file of the delta for \<open>a\<close> takes the place of the unchanged file \<open>a.tmp\<close> and is
  then moved away, and the validation misses \<open>a.tmp\<close>.
\<close>

theorem create_then_apply_fails:
  "create_patch sample_caps never None [] [([''a__b''], File ''x'')] None
     = (Some (Complete (Archive (Manifest [(''a__b'', ''x'', 1)]) [(''a__b.full'', ''x'')])), Inr ())
   \<and> snd (apply_patch sample_caps never [''game'']
          (Archive (Manifest [(''a__b'', ''x'', 1)]) [(''a__b.full'', ''x'')])
          (mount [''game''] [])) = Inl (ValidationFailed [''Missing file: a__b''])
   \<and> create_patch sample_caps never None [([''a''], File ''x'')]
        [([''a''], Dir), ([''a'', ''b''], File ''y'')] None
     = (Some (Complete (Archive (Manifest [(''a/b'', ''y'', 1)]) [(''a__b.full'', ''y'')])), Inr ())
   \<and> snd (apply_patch sample_caps never [''game'']
          (Archive (Manifest [(''a/b'', ''y'', 1)]) [(''a__b.full'', ''y'')])
          (mount [''game''] [([''a''], File ''x'')])) = Inl (FileExistsError [''game'', ''a''])
   \<and> create_patch sample_caps never None
        [([''a''], File ''1''), ([''a.tmp''], File ''t'')]
        [([''a''], File ''2''), ([''a.tmp''], File ''t'')] None
     = (Some (Complete (Archive (Manifest [(''a'', ''2'', 1), (''a.tmp'', ''t'', 1)])
          [(''a.patch'', ''D2'')])), Inr ())
   \<and> snd (apply_patch sample_caps never [''game'']
          (Archive (Manifest [(''a'', ''2'', 1), (''a.tmp'', ''t'', 1)]) [(''a.patch'', ''D2'')])
          (mount [''game''] [([''a''], File ''1''), ([''a.tmp''], File ''t'')]))
       = Inl (ValidationFailed [''Missing file: a.tmp''])"
  by code_simp

end
